theory Spec2Isabelle
  imports Main "HOL-Library.Log_Nat"
begin

section \<open>The grid world of env.py\<close>

text \<open>
  \<^verbatim>\<open>ActiveSlamEnv\<close> keeps two numpy integer arrays of the same shape, the
  ground truth \<^verbatim>\<open>true_map\<close> and the agent's \<^verbatim>\<open>belief_map\<close>, the pose of the agent
  and the two entries of the shape. A two-dimensional array is a list of rows.
\<close>

type_synonym grid = "int list list"

datatype error = ValueError | IndexError | ZeroDivisionError

text \<open>\<^verbatim>\<open>MAP_LEGEND = {'UNKNOWN': -1, 'EMPTY': 0, 'WALL': 1}\<close>\<close>

definition UNKNOWN :: int where "UNKNOWN = -1"
definition EMPTY :: int where "EMPTY = 0"
definition WALL :: int where "WALL = 1"

record env =
  true_map :: grid
  height :: int
  width :: int
  agent_dir :: int
  agent_pos :: "int \<times> int"
  belief_map :: grid

subsection \<open>Array access\<close>

text \<open>
  \<^verbatim>\<open>a[i, j]\<close> where both indices are known to lie inside the shape, so that the
  entry is read or written in place: after the bounds check of the scan
  (line 85), and in \<^verbatim>\<open>reset\<close> at a position that \<^verbatim>\<open>np.argwhere\<close> returned
  (line 51). The check compares with \<^verbatim>\<open>height\<close> and \<^verbatim>\<open>width\<close>, which are the
  shape of both arrays in every environment that \<^verbatim>\<open>__init__\<close> builds.
\<close>

definition get2 :: "grid \<Rightarrow> int \<Rightarrow> int \<Rightarrow> int" where
  "get2 m i j = m ! nat i ! nat j"

definition set2 :: "grid \<Rightarrow> int \<Rightarrow> int \<Rightarrow> int \<Rightarrow> grid" where
  "set2 m i j v = m[nat i := (m ! nat i)[nat j := v]]"

text \<open>
  An index that was not checked, as numpy and Python lists treat it: an index
  \<open>i\<close> with \<open>-n \<le> i < 0\<close> counts from the end, and an index outside
  \<open>-n \<le> i < n\<close> raises IndexError.
\<close>

definition norm_index :: "nat \<Rightarrow> int \<Rightarrow> nat option" where
  "norm_index n i =
     (if 0 \<le> i \<and> i < int n then Some (nat i)
      else if - int n \<le> i \<and> i < 0 then Some (nat (i + int n))
      else None)"

definition np_get2 :: "grid \<Rightarrow> int \<times> int \<Rightarrow> int option" where
  "np_get2 m p =
     (case norm_index (length m) (fst p) of
        None \<Rightarrow> None
      | Some i \<Rightarrow>
          (case norm_index (length (m ! i)) (snd p) of
             None \<Rightarrow> None
           | Some j \<Rightarrow> Some (m ! i ! j)))"

subsection \<open>The scan: \<^verbatim>\<open>_update_belief_map_with_lidar\<close>\<close>

text \<open>
  The body of \<^verbatim>\<open>while True\<close> (lines 81 to 98) for one direction. The loop has no
  bound of its own, so not returning is the value \<open>None\<close>. The state carried round
  the loop is the environment (for its belief map), the counter
  \<^verbatim>\<open>newly_discovered_cells\<close> and the position of the ray.
\<close>

partial_function (option) ray_march ::
  "int \<Rightarrow> int \<Rightarrow> env \<Rightarrow> int \<Rightarrow> int \<Rightarrow> int \<Rightarrow> (env \<times> int) option"
where
  "ray_march dx dy s newly_discovered_cells ray_x0 ray_y0 =
     (let ray_x = ray_x0 + dx; ray_y = ray_y0 + dy in
      if \<not> (0 \<le> ray_x \<and> ray_x < height s \<and> 0 \<le> ray_y \<and> ray_y < width s)
      then Some (s, newly_discovered_cells)
      else
        let true_val = get2 (true_map s) ray_x ray_y;
            unknown = (get2 (belief_map s) ray_x ray_y = UNKNOWN);
            s' = (if unknown
                  then s\<lparr>belief_map := set2 (belief_map s) ray_x ray_y true_val\<rparr>
                  else s);
            n' = (if unknown then newly_discovered_cells + 1 else newly_discovered_cells)
        in if true_val = WALL then Some (s', n')
           else ray_march dx dy s' n' ray_x ray_y)"

declare ray_march.simps [code]

text \<open>
  The two nested \<^verbatim>\<open>for\<close> loops over \<^verbatim>\<open>[-1, 0, 1]\<close>, with the \<^verbatim>\<open>continue\<close> at
  \<^verbatim>\<open>dx == 0 and dy == 0\<close>; every ray starts at the position of the agent.
\<close>

fun scan_dirs :: "(int \<times> int) list \<Rightarrow> env \<Rightarrow> int \<Rightarrow> (env \<times> int) option" where
  "scan_dirs [] s n = Some (s, n)"
| "scan_dirs ((dx, dy) # ds) s n =
     (if dx = 0 \<and> dy = 0 then scan_dirs ds s n
      else (case ray_march dx dy s n (fst (agent_pos s)) (snd (agent_pos s)) of
              None \<Rightarrow> None
            | Some (s', n') \<Rightarrow> scan_dirs ds s' n'))"

definition update_belief_map_with_lidar :: "env \<Rightarrow> (env \<times> int) option" where
  "update_belief_map_with_lidar s = scan_dirs (List.product [-1, 0, 1] [-1, 0, 1]) s 0"

subsection \<open>Python floats\<close>

text \<open>
  A Python float is an IEEE binary64 number. It is modelled by its exact value, a
  rational, and every operation rounds the exact result to the nearest number with
  a 53-bit significand, ties to the even significand. Rewards and coverages stay far
  from the overflow and subnormal ranges, which are left out.
\<close>

definition rne :: "rat \<Rightarrow> int" where
  "rne q =
     (let f = \<lfloor>q\<rfloor>; r = q - of_int f in
      if r < 1 / 2 then f
      else if 1 / 2 < r then f + 1
      else if even f then f else f + 1)"

text \<open>The exponent \<open>e\<close> with \<open>2 ^ e \<le> x < 2 ^ (e + 1)\<close> of a positive \<open>x\<close>.\<close>

definition binade :: "rat \<Rightarrow> int" where
  "binade x =
     (let d = bitlen (fst (quotient_of x)) - bitlen (snd (quotient_of x)) in
      if 2 powi d \<le> x then d else d - 1)"

definition fl :: "rat \<Rightarrow> rat" where
  "fl x =
     (if x = 0 then 0
      else let u = 2 powi (binade \<bar>x\<bar> - 52) in of_int (rne (x / u)) * u)"

definition fadd :: "rat \<Rightarrow> rat \<Rightarrow> rat" where "fadd x y = fl (x + y)"
definition fsub :: "rat \<Rightarrow> rat \<Rightarrow> rat" where "fsub x y = fl (x - y)"
definition fmul :: "rat \<Rightarrow> rat \<Rightarrow> rat" where "fmul x y = fl (x * y)"

text \<open>\<^verbatim>\<open>float(k)\<close> of an integer, and \<^verbatim>\<open>a / b\<close> of two integers, which is correctly rounded.\<close>

definition float_of_int :: "int \<Rightarrow> rat" where "float_of_int k = fl (of_int k)"

definition truediv :: "int \<Rightarrow> int \<Rightarrow> error + rat" where
  "truediv a b = (if b = 0 then Inl ZeroDivisionError else Inr (fl (of_int a / of_int b)))"

subsection \<open>\<^verbatim>\<open>step\<close>\<close>

definition directions :: "(int \<times> int) list" where
  "directions = [(0, 1), (-1, 0), (0, -1), (1, 0)]"

definition py_index :: "'a list \<Rightarrow> int \<Rightarrow> 'a option" where
  "py_index xs i = map_option (\<lambda>k. xs ! k) (norm_index (length xs) i)"

text \<open>
  Lines 106 to 126: the turn, the candidate position and the collision test,
  which reads \<^verbatim>\<open>true_map\<close> at the candidate without a bounds check. The result is
  the environment after the move and \<^verbatim>\<open>is_collision\<close>. For an action that is not
  0 the candidate is the position itself.
\<close>

definition move :: "env \<Rightarrow> int \<Rightarrow> error + env \<times> bool" where
  "move s action =
     (let s1 = (if action = 1 then s\<lparr>agent_dir := (agent_dir s + 1) mod 4\<rparr>
                else if action = 2 then s\<lparr>agent_dir := (agent_dir s - 1 + 4) mod 4\<rparr>
                else s)
      in case (if action = 0
               then map_option
                      (\<lambda>d. (fst (agent_pos s1) + fst d, snd (agent_pos s1) + snd d))
                      (py_index directions (agent_dir s1))
               else Some (agent_pos s1)) of
           None \<Rightarrow> Inl IndexError
         | Some new_pos \<Rightarrow>
             (case np_get2 (true_map s1) new_pos of
                None \<Rightarrow> Inl IndexError
              | Some v \<Rightarrow>
                  if v = WALL then Inr (s1, True)
                  else Inr (s1\<lparr>agent_pos := new_pos\<rparr>, False)))"

text \<open>Lines 131 to 140: the reward, from \<^verbatim>\<open>is_collision\<close> and the count of the scan.\<close>

definition reward_of :: "bool \<Rightarrow> int \<Rightarrow> rat" where
  "reward_of is_collision newly_discovered_cells =
     (let reward = (if is_collision then fsub 0 5 else 0);
          reward = fadd reward (fmul (float_of_int newly_discovered_cells) 1)
      in fsub reward (fl (1 / 10)))"

text \<open>Line 143: \<^verbatim>\<open>np.count_nonzero(belief_map != UNKNOWN) / belief_map.size\<close>.\<close>

definition count_known :: "grid \<Rightarrow> int" where
  "count_known b = int (length (filter (\<lambda>v. v \<noteq> UNKNOWN) (concat b)))"

definition size_of :: "grid \<Rightarrow> int" where
  "size_of b = int (length (concat b))"

definition coverage :: "grid \<Rightarrow> error + rat" where
  "coverage b = truediv (count_known b) (size_of b)"

definition get_observation :: "env \<Rightarrow> int list" where
  "get_observation s = concat (belief_map s)"

text \<open>
  The result of \<^verbatim>\<open>step\<close> is \<open>None\<close> when the scan does not return,
  \<open>Some (Inl e)\<close> when an exception leaves the method, and otherwise the new
  environment with the triple \<^verbatim>\<open>(next_observation, reward, done)\<close>.
\<close>

definition step :: "env \<Rightarrow> int \<Rightarrow> (error + env \<times> int list \<times> rat \<times> bool) option" where
  "step s action =
     (case move s action of
        Inl e \<Rightarrow> Some (Inl e)
      | Inr (s2, is_collision) \<Rightarrow>
          (case update_belief_map_with_lidar s2 of
             None \<Rightarrow> None
           | Some (s3, newly_discovered_cells) \<Rightarrow>
               (case coverage (belief_map s3) of
                  Inl e \<Rightarrow> Some (Inl e)
                | Inr c \<Rightarrow>
                    Some (Inr (s3, get_observation s3,
                               reward_of is_collision newly_discovered_cells,
                               fl (95 / 100) < c)))))"

subsection \<open>\<^verbatim>\<open>reset\<close> and \<^verbatim>\<open>__init__\<close>\<close>

definition np_full :: "int \<Rightarrow> int \<Rightarrow> int \<Rightarrow> grid" where
  "np_full h w v = replicate (nat h) (replicate (nat w) v)"

text \<open>\<^verbatim>\<open>np.argwhere(m == v)\<close>: the positions holding \<open>v\<close>, in row-major order.\<close>

definition argwhere_eq :: "grid \<Rightarrow> int \<Rightarrow> (int \<times> int) list" where
  "argwhere_eq m v =
     concat (map (\<lambda>(i, row). map (\<lambda>(j, x). (int i, int j))
                                   (filter (\<lambda>(j, x). x = v) (enumerate 0 row)))
                 (enumerate 0 m))"

text \<open>
  \<^verbatim>\<open>reset\<close> makes a new belief map, puts the agent on the first cell that holds
  0 (\<^verbatim>\<open>start_pos_arr[0]\<close> raises IndexError when there is none), marks that cell
  and scans. It leaves \<^verbatim>\<open>agent_dir\<close> as it is.
\<close>

definition reset :: "env \<Rightarrow> (error + env \<times> int list) option" where
  "reset s =
     (let s1 = s\<lparr>belief_map := np_full (height s) (width s) UNKNOWN\<rparr> in
      case argwhere_eq (true_map s1) EMPTY of
        [] \<Rightarrow> Some (Inl IndexError)
      | p # _ \<Rightarrow>
          (let s2 = s1\<lparr>agent_pos := p\<rparr>;
               s3 = s2\<lparr>belief_map := set2 (belief_map s2) (fst p) (snd p) EMPTY\<rparr>
           in (case update_belief_map_with_lidar s3 of
                 None \<Rightarrow> None
               | Some (s4, n) \<Rightarrow> Some (Inr (s4, get_observation s4)))))"

text \<open>
  \<^verbatim>\<open>np.loadtxt(path, dtype=int)\<close> is numpy's, not this repository's. Its argument
  here is the file as rows of integer tokens. As numpy documents it, blank lines
  are skipped, rows with different numbers of columns raise ValueError, and
  axes of length one are squeezed away, so that the shape has two entries only
  for at least two rows and two columns; otherwise the unpacking of
  \<^verbatim>\<open>true_map.shape\<close> (line 20) raises ValueError. The array has 64-bit signed
  entries: a token that does not fit raises ValueError too. Apart from that no
  value is compared with anything.
\<close>

definition int64 :: "int \<Rightarrow> bool" where
  "int64 v = (- (2 ^ 63) \<le> v \<and> v < 2 ^ 63)"

definition loadtxt :: "int list list \<Rightarrow> error + grid" where
  "loadtxt rows =
     (let rs = filter (\<lambda>r. r \<noteq> []) rows in
      if \<exists>r \<in> set rs. \<exists>v \<in> set r. \<not> int64 v then Inl ValueError
      else if \<exists>r \<in> set rs. length r \<noteq> length (hd rs) then Inl ValueError
      else Inr rs)"

text \<open>
  \<^verbatim>\<open>__init__\<close>, without the plotting. The position and the belief map are
  assigned by \<^verbatim>\<open>reset\<close> before they are read, so their values in the record
  handed to it do not matter.
\<close>

definition init :: "int list list \<Rightarrow> (error + env) option" where
  "init rows =
     (case loadtxt rows of
        Inl e \<Rightarrow> Some (Inl e)
      | Inr m \<Rightarrow>
          if length m < 2 \<or> length (hd m) < 2 then Some (Inl ValueError)
          else
            (case reset \<lparr>true_map = m, height = int (length m), width = int (length (hd m)),
                         agent_dir = 0, agent_pos = (0, 0), belief_map = []\<rparr> of
               None \<Rightarrow> None
             | Some (Inl e) \<Rightarrow> Some (Inl e)
             | Some (Inr (s, obs)) \<Rightarrow> Some (Inr s)))"

text \<open>A run of \<^verbatim>\<open>step\<close> calls, as the driver of rand.py makes them.\<close>

fun steps :: "env \<Rightarrow> int list \<Rightarrow> (error + env) option" where
  "steps s [] = Some (Inr s)"
| "steps s (a # as) =
     (case step s a of
        None \<Rightarrow> None
      | Some (Inl e) \<Rightarrow> Some (Inl e)
      | Some (Inr (s', obs, reward, done)) \<Rightarrow> steps s' as)"

section \<open>Notions used in the statements\<close>

text \<open>
  The loop of \<open>ray_march\<close> with a bound on the number of iterations: \<open>None\<close>
  when the bound is used up. It is only a yardstick for the length of a ray.
\<close>

fun ray_iter :: "nat \<Rightarrow> int \<Rightarrow> int \<Rightarrow> env \<Rightarrow> int \<Rightarrow> int \<Rightarrow> int \<Rightarrow> (env \<times> int) option" where
  "ray_iter 0 dx dy s n x0 y0 = None"
| "ray_iter (Suc k) dx dy s newly_discovered_cells ray_x0 ray_y0 =
     (let ray_x = ray_x0 + dx; ray_y = ray_y0 + dy in
      if \<not> (0 \<le> ray_x \<and> ray_x < height s \<and> 0 \<le> ray_y \<and> ray_y < width s)
      then Some (s, newly_discovered_cells)
      else
        let true_val = get2 (true_map s) ray_x ray_y;
            unknown = (get2 (belief_map s) ray_x ray_y = UNKNOWN);
            s' = (if unknown
                  then s\<lparr>belief_map := set2 (belief_map s) ray_x ray_y true_val\<rparr>
                  else s);
            n' = (if unknown then newly_discovered_cells + 1 else newly_discovered_cells)
        in if true_val = WALL then Some (s', n')
           else ray_iter k dx dy s' n' ray_x ray_y)"

text \<open>The eight directions of the scan.\<close>

definition valid_dir :: "int \<Rightarrow> int \<Rightarrow> bool" where
  "valid_dir dx dy = (dx \<in> {-1, 0, 1} \<and> dy \<in> {-1, 0, 1} \<and> \<not> (dx = 0 \<and> dy = 0))"

definition in_bounds :: "env \<Rightarrow> int \<Rightarrow> int \<Rightarrow> bool" where
  "in_bounds s x y = (0 \<le> x \<and> x < height s \<and> 0 \<le> y \<and> y < width s)"

text \<open>The number of candidate cells a ray at \<open>(x, y)\<close> can still look at.\<close>

definition ray_room :: "int \<Rightarrow> int \<Rightarrow> env \<Rightarrow> int \<Rightarrow> int \<Rightarrow> int" where
  "ray_room dx dy s x y =
     (if dx = 1 then height s - x else if dx = -1 then x + 1
      else if dy = 1 then width s - y else y + 1)"

definition ray_bound :: "env \<Rightarrow> nat" where
  "ray_bound s = nat (max (height s) (width s)) + 1"

text \<open>A small room with a wall all round, the agent on its first free cell.\<close>

definition room :: env where
  "room = \<lparr>true_map = [[1, 1, 1, 1], [1, 0, 0, 1], [1, 0, 0, 1], [1, 1, 1, 1]],
            height = 4, width = 4, agent_dir = 0, agent_pos = (1, 1),
            belief_map = [[1, 1, 1, -1], [1, 0, 0, 1], [1, 0, 0, -1], [-1, 1, -1, 1]]\<rparr>"

text \<open>
  The two arrays have the shape \<^verbatim>\<open>(height, width)\<close>, as \<^verbatim>\<open>__init__\<close> and
  \<^verbatim>\<open>reset\<close> leave them.
\<close>


definition has_shape :: "int \<Rightarrow> int \<Rightarrow> grid \<Rightarrow> bool" where
  "has_shape h w m = (length m = nat h \<and> (\<forall>row \<in> set m. length row = nat w))"

definition wf_env :: "env \<Rightarrow> bool" where
  "wf_env s = (has_shape (height s) (width s) (true_map s) \<and>
               has_shape (height s) (width s) (belief_map s))"

text \<open>
  What the spec says a ray sees. The ray from \<open>(x, y)\<close> in the direction
  \<open>(dx, dy)\<close> gets as far as its \<open>k\<close>-th cell when the first \<open>k\<close> cells are
  inside the map and none before the \<open>k\<close>-th is a wall; a cell is on the ray when
  it is such a \<open>k\<close>-th cell, and visible when it is on one of the eight rays from
  the position of the agent. A ray inside the map has at most
  \<open>max height width\<close> cells, so the bound on \<open>k\<close> leaves none out.
\<close>

definition reaches :: "int \<Rightarrow> int \<Rightarrow> env \<Rightarrow> int \<Rightarrow> int \<Rightarrow> int \<Rightarrow> bool" where
  "reaches dx dy s x y k =
     ((\<forall>j \<in> {1..k}. in_bounds s (x + j * dx) (y + j * dy)) \<and>
      (\<forall>j \<in> {1..<k}. get2 (true_map s) (x + j * dx) (y + j * dy) \<noteq> WALL))"

definition on_ray :: "int \<Rightarrow> int \<Rightarrow> env \<Rightarrow> int \<Rightarrow> int \<Rightarrow> int \<Rightarrow> int \<Rightarrow> bool" where
  "on_ray dx dy s x y r c =
     (\<exists>k \<in> {1..max (height s) (width s)}.
        r = x + k * dx \<and> c = y + k * dy \<and> reaches dx dy s x y k)"

definition visible :: "env \<Rightarrow> int \<Rightarrow> int \<Rightarrow> bool" where
  "visible s r c =
     (\<exists>d \<in> set (List.product [-1, 0, 1] [-1, 0, 1]).
        d \<noteq> (0, 0) \<and> on_ray (fst d) (snd d) s (fst (agent_pos s)) (snd (agent_pos s)) r c)"

text \<open>
  One pass through lines 88 to 94 at the cell \<open>(x, y)\<close>: the belief map takes the
  true value there if the cell was unknown, and the counter grows by \<open>fresh\<close>.
\<close>

definition seen :: "env \<Rightarrow> int \<Rightarrow> int \<Rightarrow> env" where
  "seen s x y =
     (if get2 (belief_map s) x y = UNKNOWN
      then s\<lparr>belief_map := set2 (belief_map s) x y (get2 (true_map s) x y)\<rparr>
      else s)"

definition fresh :: "env \<Rightarrow> int \<Rightarrow> int \<Rightarrow> int" where
  "fresh s x y = (if get2 (belief_map s) x y = UNKNOWN then 1 else 0)"

text \<open>No cell of the ground truth holds the code of an unknown cell.\<close>

definition no_unknown :: "env \<Rightarrow> bool" where
  "no_unknown s = (\<forall>row \<in> set (true_map s). \<forall>v \<in> set row. v \<noteq> UNKNOWN)"

text \<open>A list of directions as the two \<^verbatim>\<open>for\<close> loops produce them.\<close>

definition dirs_ok :: "(int \<times> int) list \<Rightarrow> bool" where
  "dirs_ok ds = (\<forall>d \<in> set ds. (fst d = 0 \<and> snd d = 0) \<or> valid_dir (fst d) (snd d))"

text \<open>The same room just before the first scan of \<^verbatim>\<open>reset\<close>, and after four steps.\<close>

definition room0 :: env where
  "room0 = \<lparr>true_map = [[1, 1, 1, 1], [1, 0, 0, 1], [1, 0, 0, 1], [1, 1, 1, 1]],
             height = 4, width = 4, agent_dir = 0, agent_pos = (1, 1),
             belief_map = [[-1, -1, -1, -1], [-1, 0, -1, -1], [-1, -1, -1, -1],
                           [-1, -1, -1, -1]]\<rparr>"

definition room_end :: env where
  "room_end = \<lparr>true_map = [[1, 1, 1, 1], [1, 0, 0, 1], [1, 0, 0, 1], [1, 1, 1, 1]],
                height = 4, width = 4, agent_dir = 0, agent_pos = (2, 2),
                belief_map = [[1, 1, 1, 1], [1, 0, 0, 1], [1, 0, 0, 1], [1, 1, 1, 1]]\<rparr>"

text \<open>
  What holds of every environment that \<^verbatim>\<open>__init__\<close>, \<^verbatim>\<open>reset\<close> and \<^verbatim>\<open>step\<close>
  produce: the position of the agent indexes a cell of the ground truth that is
  not a wall, and a scan from that position has been made (an unknown cell that
  is visible can only be one whose true value is the code of unknown).
\<close>

definition pos_ok :: "env \<Rightarrow> bool" where
  "pos_ok s = (case np_get2 (true_map s) (agent_pos s) of None \<Rightarrow> False | Some v \<Rightarrow> v \<noteq> WALL)"

definition scanned :: "env \<Rightarrow> bool" where
  "scanned s =
     (\<forall>r \<in> {0..<height s}. \<forall>c \<in> {0..<width s}.
        visible s r c \<and> get2 (belief_map s) r c = UNKNOWN \<longrightarrow>
        get2 (true_map s) r c = UNKNOWN)"

definition pose_ok :: "env \<Rightarrow> bool" where
  "pose_ok s = (wf_env s \<and> 0 < height s \<and> 0 < width s \<and>
                0 \<le> agent_dir s \<and> agent_dir s < 4 \<and> pos_ok s)"

definition inv :: "env \<Rightarrow> bool" where
  "inv s = (wf_env s \<and> 0 < height s \<and> 0 < width s \<and> 0 \<le> agent_dir s \<and> agent_dir s < 4 \<and>
            pos_ok s \<and> scanned s)"

text \<open>The environments that a driver can hold.\<close>

inductive reachable :: "env \<Rightarrow> bool" where
  r_init: "init rows = Some (Inr s) \<Longrightarrow> reachable s"
| r_reset: "reachable s \<Longrightarrow> reset s = Some (Inr (s', obs)) \<Longrightarrow> reachable s'"
| r_step: "reachable s \<Longrightarrow> step s a = Some (Inr (s', obs, rw, d)) \<Longrightarrow> reachable s'"

text \<open>
  The candidate of lines 117 to 119, for an orientation in \<open>0..3\<close>, and the turn
  of lines 107 to 110.
\<close>

definition candidate :: "env \<Rightarrow> int \<times> int" where
  "candidate s =
     (fst (agent_pos s) + fst (directions ! nat (agent_dir s)),
      snd (agent_pos s) + snd (directions ! nat (agent_dir s)))"

definition turned :: "env \<Rightarrow> int \<Rightarrow> env" where
  "turned s a =
     (if a = 1 then s\<lparr>agent_dir := (agent_dir s + 1) mod 4\<rparr>
      else if a = 2 then s\<lparr>agent_dir := (agent_dir s - 1 + 4) mod 4\<rparr>
      else s)"

text \<open>
  A map of two rows of two free cells, as \<^verbatim>\<open>__init__\<close> leaves the environment, and
  the same after a left turn, after a left turn and a forward step, and after a
  right turn and a forward step.
\<close>

definition open2 :: env where
  "open2 = \<lparr>true_map = [[0, 0], [0, 0]], height = 2, width = 2, agent_dir = 0,
             agent_pos = (0, 0), belief_map = [[0, 0], [0, 0]]\<rparr>"

definition open2_north :: env where "open2_north = open2\<lparr>agent_dir := 1\<rparr>"

definition open2_out :: env where "open2_out = open2\<lparr>agent_dir := 1, agent_pos := (-1, 0)\<rparr>"

definition open2_south :: env where "open2_south = open2\<lparr>agent_dir := 3, agent_pos := (1, 0)\<rparr>"

text \<open>A map with a value that is neither 0 nor 1, as \<^verbatim>\<open>__init__\<close> leaves the environment.\<close>

definition odd_map :: env where
  "odd_map = \<lparr>true_map = [[0, 2], [1, 1]], height = 2, width = 2, agent_dir = 0,
               agent_pos = (0, 0), belief_map = [[0, 2], [1, 1]]\<rparr>"

text \<open>
  A map of two rows with a wall in the second column, as \<^verbatim>\<open>__init__\<close> leaves the
  environment, the same after a right turn, and after a forward step more. Half
  of the cells stay unknown.
\<close>

definition corridor :: env where
  "corridor = \<lparr>true_map = [[0, 1, 0, 0], [0, 1, 0, 0]], height = 2, width = 4,
                agent_dir = 0, agent_pos = (0, 0),
                belief_map = [[0, 1, -1, -1], [0, 1, -1, -1]]\<rparr>"

definition corridor_turned :: env where
  "corridor_turned = corridor\<lparr>agent_dir := 3\<rparr>"

definition corridor_south :: env where
  "corridor_south = corridor\<lparr>agent_dir := 3, agent_pos := (1, 0)\<rparr>"

section \<open>The scan returns\<close>

lemma ray_iter_march:
  "ray_iter k dx dy s n x y = Some r \<Longrightarrow> ray_march dx dy s n x y = Some r"
proof (induction k arbitrary: s n x y)
  case 0
  then show ?case by simp
next
  case (Suc k)
  show ?case
    using Suc.prems Suc.IH
    by (subst ray_march.simps) (auto simp: Let_def split: if_splits)
qed

lemma ray_iter_enough:
  "valid_dir dx dy \<Longrightarrow> 0 < k \<Longrightarrow>
   (in_bounds s (x + dx) (y + dy) \<longrightarrow> ray_room dx dy s x y \<le> int k) \<Longrightarrow>
   \<exists>r. ray_iter k dx dy s n x y = Some r"
proof (induction k arbitrary: s n x y)
  case 0
  then show ?case by simp
next
  case (Suc k)
  show ?case
  proof (cases "in_bounds s (x + dx) (y + dy)")
    case False
    then show ?thesis by (simp add: in_bounds_def Let_def)
  next
    case True
    define tv where "tv = get2 (true_map s) (x + dx) (y + dy)"
    define s' where "s' = (if get2 (belief_map s) (x + dx) (y + dy) = UNKNOWN
                  then s\<lparr>belief_map := set2 (belief_map s) (x + dx) (y + dy) tv\<rparr>
                  else s)"
    have hw: "height s' = height s" "width s' = width s" by (simp_all add: s'_def)
    show ?thesis
    proof (cases "tv = WALL")
      case True
      then show ?thesis using \<open>in_bounds s (x + dx) (y + dy)\<close>
        by (simp add: in_bounds_def Let_def tv_def)
    next
      case False
      have room: "ray_room dx dy s x y \<le> int (Suc k)" using Suc.prems True by simp
      have k: "0 < k" using room True Suc.prems(1)
        by (auto simp: ray_room_def in_bounds_def valid_dir_def split: if_splits)
      have "in_bounds s' (x + dx + dx) (y + dy + dy) \<longrightarrow>
            ray_room dx dy s' (x + dx) (y + dy) \<le> int k"
        using room Suc.prems(1)
        by (auto simp: ray_room_def in_bounds_def valid_dir_def hw split: if_splits)
      from Suc.IH[OF Suc.prems(1) k this]
      obtain r where "ray_iter k dx dy s'
          (if get2 (belief_map s) (x + dx) (y + dy) = UNKNOWN then n + 1 else n)
          (x + dx) (y + dy) = Some r"
        by blast
      then show ?thesis using True False
        by (auto simp add: in_bounds_def Let_def tv_def s'_def split: if_splits)
    qed
  qed
qed

lemma ray_iter_bound:
  assumes "valid_dir dx dy"
  shows "\<exists>r. ray_iter (ray_bound s) dx dy s n x y = Some r"
proof (rule ray_iter_enough[OF assms])
  show "0 < ray_bound s" by (simp add: ray_bound_def)
  show "in_bounds s (x + dx) (y + dy) \<longrightarrow> ray_room dx dy s x y \<le> int (ray_bound s)"
    using assms by (auto simp: ray_room_def in_bounds_def valid_dir_def ray_bound_def)
qed

lemma ray_march_eq_iter:
  "valid_dir dx dy \<Longrightarrow> ray_march dx dy s n x y = ray_iter (ray_bound s) dx dy s n x y"
  using ray_iter_bound[of dx dy s n x y] ray_iter_march by fastforce

lemma scan_dirs_returns:
  "\<forall>d \<in> set ds. (fst d = 0 \<and> snd d = 0) \<or> valid_dir (fst d) (snd d) \<Longrightarrow>
   \<exists>r. scan_dirs ds s n = Some r"
proof (induction ds arbitrary: s n)
  case Nil
  then show ?case by simp
next
  case (Cons d ds)
  obtain dx dy where d: "d = (dx, dy)" by (cases d)
  show ?case
  proof (cases "dx = 0 \<and> dy = 0")
    case True
    then show ?thesis using Cons d by simp
  next
    case False
    then have "valid_dir dx dy" using Cons.prems d by auto
    then obtain s' n' where
      "ray_march dx dy s n (fst (agent_pos s)) (snd (agent_pos s)) = Some (s', n')"
      using ray_iter_bound ray_iter_march by (metis surj_pair)
    then show ?thesis using Cons False d by simp
  qed
qed

lemma eight_dirs:
  "\<forall>d \<in> set (List.product [-1, 0, 1] [-1, 0, 1]).
     (fst d = 0 \<and> snd d = 0) \<or> valid_dir (fst d) (snd d)"
  by (simp add: valid_dir_def)

lemma scan_returns: "\<exists>s' n. update_belief_map_with_lidar s = Some (s', n)"
  using scan_dirs_returns[OF eight_dirs, of s 0]
  by (simp only: update_belief_map_with_lidar_def) auto

text \<open>
  C9. The scan returns from every environment, whatever the position of the agent:
  a ray of any of the eight directions returns within
  \<open>max height width + 1\<close> iterations of its loop, because each iteration either
  leaves the bounds, stops at a wall, or moves one cell further inside the map.
\<close>

theorem scan_terminates:
  "(\<exists>s' n. update_belief_map_with_lidar s = Some (s', n)) \<and>
   (\<forall>dx dy n x y. valid_dir dx dy \<longrightarrow>
      (\<exists>r. ray_iter (nat (max (height s) (width s)) + 1) dx dy s n x y = Some r \<and>
           ray_march dx dy s n x y = Some r))"
proof (intro conjI allI impI)
  show "\<exists>s' n. update_belief_map_with_lidar s = Some (s', n)" by (rule scan_returns)
next
  fix dx dy n x y
  assume "valid_dir dx dy"
  then obtain r where "ray_iter (ray_bound s) dx dy s n x y = Some r"
    using ray_iter_bound by blast
  then have r: "ray_iter (nat (max (height s) (width s)) + 1) dx dy s n x y = Some r"
    unfolding ray_bound_def .
  then have "ray_march dx dy s n x y = Some r" by (rule ray_iter_march)
  with r show "\<exists>r. ray_iter (nat (max (height s) (width s)) + 1) dx dy s n x y = Some r \<and>
                 ray_march dx dy s n x y = Some r"
    by blast
qed

theorem scan_terminates_witness:
  "valid_dir 1 (-1) \<and> (\<exists>r. ray_iter 5 1 (-1) room 0 1 1 = Some r \<and>
                               ray_march 1 (-1) room 0 1 1 = Some r)"
proof -
  have v: "valid_dir 1 (-1)" by (simp add: valid_dir_def)
  have "nat (max (height room) (width room)) + 1 = 5" by (simp add: room_def)
  then show ?thesis using v scan_terminates[of room] by metis
qed

section \<open>Arrays and rays\<close>

lemma has_shape_set2: "has_shape h w m \<Longrightarrow> has_shape h w (set2 m i j v)"
proof (cases "nat i < length m")
  case False
  assume "has_shape h w m"
  then show ?thesis using False by (simp add: set2_def list_update_beyond not_less)
next
  case True
  assume "has_shape h w m"
  then show ?thesis
    unfolding has_shape_def set2_def using True
    by (auto dest!: subsetD[OF set_update_subset_insert])
qed

lemma get2_set2:
  assumes "has_shape h w m" "0 \<le> i" "i < h" "0 \<le> j" "j < w" "0 \<le> i'" "0 \<le> j'"
  shows "get2 (set2 m i j v) i' j' = (if i' = i \<and> j' = j then v else get2 m i' j')"
proof -
  have i: "nat i < length m" using assms by (simp add: has_shape_def)
  then have "m ! nat i \<in> set m" by simp
  then have j: "nat j < length (m ! nat i)" using assms by (simp add: has_shape_def)
  have ii: "nat i' = nat i \<longleftrightarrow> i' = i" and jj: "nat j' = nat j \<longleftrightarrow> j' = j"
    using assms by auto
  show ?thesis
    unfolding get2_def set2_def using i j ii jj
    by (auto simp: nth_list_update)
qed

lemma reaches_one: "reaches dx dy s x y 1 \<longleftrightarrow> in_bounds s (x + dx) (y + dy)"
  by (simp add: reaches_def)

lemma reaches_Suc:
  assumes "1 \<le> k"
  shows "reaches dx dy s x y (k + 1) \<longleftrightarrow>
         in_bounds s (x + dx) (y + dy) \<and> get2 (true_map s) (x + dx) (y + dy) \<noteq> WALL \<and>
         reaches dx dy s (x + dx) (y + dy) k"
proof
  assume r: "reaches dx dy s x y (k + 1)"
  have sh: "x + dx + j * dx = x + (j + 1) * dx" "y + dy + j * dy = y + (j + 1) * dy" for j
    by (simp_all add: algebra_simps)
  have a: "in_bounds s (x + dx) (y + dy)"
    using r assms unfolding reaches_def by (auto dest: bspec[where x = 1])
  have b: "get2 (true_map s) (x + dx) (y + dy) \<noteq> WALL"
    using r assms unfolding reaches_def by (auto dest: bspec[where x = 1])
  have c: "reaches dx dy s (x + dx) (y + dy) k"
    unfolding reaches_def sh
  proof (intro conjI ballI)
    fix j assume "j \<in> {1..k}"
    then have "j + 1 \<in> {1..k + 1}" by simp
    then show "in_bounds s (x + (j + 1) * dx) (y + (j + 1) * dy)"
      using r unfolding reaches_def by blast
  next
    fix j assume "j \<in> {1..<k}"
    then have "j + 1 \<in> {1..<k + 1}" by simp
    then show "get2 (true_map s) (x + (j + 1) * dx) (y + (j + 1) * dy) \<noteq> WALL"
      using r unfolding reaches_def by blast
  qed
  from a b c show "in_bounds s (x + dx) (y + dy) \<and> get2 (true_map s) (x + dx) (y + dy) \<noteq> WALL \<and>
         reaches dx dy s (x + dx) (y + dy) k" by simp
next
  assume h: "in_bounds s (x + dx) (y + dy) \<and> get2 (true_map s) (x + dx) (y + dy) \<noteq> WALL \<and>
         reaches dx dy s (x + dx) (y + dy) k"
  have sh: "x + dx + (j - 1) * dx = x + j * dx" "y + dy + (j - 1) * dy = y + j * dy" for j
    by (simp_all add: algebra_simps)
  show "reaches dx dy s x y (k + 1)"
    unfolding reaches_def
  proof (intro conjI ballI)
    fix j assume j: "j \<in> {1..k + 1}"
    show "in_bounds s (x + j * dx) (y + j * dy)"
    proof (cases "j = 1")
      case True then show ?thesis using h by simp
    next
      case False
      then have "j - 1 \<in> {1..k}" using j by simp
      then have "in_bounds s (x + dx + (j - 1) * dx) (y + dy + (j - 1) * dy)"
        using h unfolding reaches_def by blast
      then show ?thesis unfolding sh .
    qed
  next
    fix j assume j: "j \<in> {1..<k + 1}"
    show "get2 (true_map s) (x + j * dx) (y + j * dy) \<noteq> WALL"
    proof (cases "j = 1")
      case True then show ?thesis using h by simp
    next
      case False
      then have "j - 1 \<in> {1..<k}" using j by simp
      then have "get2 (true_map s) (x + dx + (j - 1) * dx) (y + dy + (j - 1) * dy) \<noteq> WALL"
        using h unfolding reaches_def by blast
      then show ?thesis unfolding sh .
    qed
  qed
qed

text \<open>A ray that stays inside the map is no longer than the map.\<close>

lemma reaches_short:
  assumes "valid_dir dx dy" "1 \<le> k" "reaches dx dy s x y k"
  shows "k \<le> max (height s) (width s)"
proof -
  have "1 \<in> {1..k}" "k \<in> {1..k}" using assms(2) by simp_all
  then have a: "in_bounds s (x + 1 * dx) (y + 1 * dy)"
    and b: "in_bounds s (x + k * dx) (y + k * dy)"
    using assms(3) unfolding reaches_def by blast+
  show ?thesis using a b assms(1) unfolding in_bounds_def valid_dir_def by auto
qed

lemma on_ray_unbounded:
  "valid_dir dx dy \<Longrightarrow> on_ray dx dy s x y r c \<longleftrightarrow>
     (\<exists>k\<ge>1. r = x + k * dx \<and> c = y + k * dy \<and> reaches dx dy s x y k)"
  unfolding on_ray_def using reaches_short by (metis atLeastAtMost_iff)

lemma on_ray_step:
  assumes "valid_dir dx dy"
  shows "on_ray dx dy s x y r c \<longleftrightarrow>
     in_bounds s (x + dx) (y + dy) \<and>
     ((r = x + dx \<and> c = y + dy) \<or>
      (get2 (true_map s) (x + dx) (y + dy) \<noteq> WALL \<and> on_ray dx dy s (x + dx) (y + dy) r c))"
    (is "?L \<longleftrightarrow> ?R")
proof
  assume ?L
  then obtain k where k: "1 \<le> k" "r = x + k * dx" "c = y + k * dy" "reaches dx dy s x y k"
    unfolding on_ray_unbounded[OF assms] by blast
  show ?R
  proof (cases "k = 1")
    case True
    then show ?thesis using k reaches_one by simp
  next
    case False
    then have k1: "1 \<le> k - 1" using k by simp
    have "reaches dx dy s x y ((k - 1) + 1)" using k by simp
    then have st: "in_bounds s (x + dx) (y + dy)" "get2 (true_map s) (x + dx) (y + dy) \<noteq> WALL"
        "reaches dx dy s (x + dx) (y + dy) (k - 1)"
      unfolding reaches_Suc[OF k1] by simp_all
    have "r = x + dx + (k - 1) * dx" "c = y + dy + (k - 1) * dy"
      using k by (simp_all add: algebra_simps)
    then have "on_ray dx dy s (x + dx) (y + dy) r c"
      unfolding on_ray_unbounded[OF assms] using k1 st(3) by blast
    then show ?thesis using st by simp
  qed
next
  assume R: ?R
  then have ib: "in_bounds s (x + dx) (y + dy)" by simp
  from R consider "r = x + dx \<and> c = y + dy"
    | "get2 (true_map s) (x + dx) (y + dy) \<noteq> WALL \<and> on_ray dx dy s (x + dx) (y + dy) r c"
    by blast
  then show ?L
  proof cases
    case 1
    have "reaches dx dy s x y 1" using ib reaches_one by simp
    then show ?thesis unfolding on_ray_unbounded[OF assms] using 1
      by (intro exI[of _ 1]) simp
  next
    case 2
    then obtain k where k: "1 \<le> k" "r = x + dx + k * dx" "c = y + dy + k * dy"
        "reaches dx dy s (x + dx) (y + dy) k"
      unfolding on_ray_unbounded[OF assms] by blast
    have "reaches dx dy s x y (k + 1)" unfolding reaches_Suc[OF k(1)] using ib 2 k by simp
    moreover have "r = x + (k + 1) * dx" "c = y + (k + 1) * dy"
      using k by (simp_all add: algebra_simps)
    ultimately show ?thesis unfolding on_ray_unbounded[OF assms] using k(1)
      by (intro exI[of _ "k + 1"]) simp
  qed
qed

section \<open>What a scan does\<close>

lemma ray_iter_Suc:
  "ray_iter (Suc k) dx dy s n x y =
     (if \<not> in_bounds s (x + dx) (y + dy) then Some (s, n)
      else if get2 (true_map s) (x + dx) (y + dy) = WALL
      then Some (seen s (x + dx) (y + dy), n + fresh s (x + dx) (y + dy))
      else ray_iter k dx dy (seen s (x + dx) (y + dy)) (n + fresh s (x + dx) (y + dy))
             (x + dx) (y + dy))"
  by (simp add: Let_def in_bounds_def seen_def fresh_def)

declare ray_iter.simps(2) [simp del]

lemma seen_frame [simp]:
  "true_map (seen s x y) = true_map s" "height (seen s x y) = height s"
  "width (seen s x y) = width s" "agent_pos (seen s x y) = agent_pos s"
  "agent_dir (seen s x y) = agent_dir s"
  by (simp_all add: seen_def)

lemma seen_wf: "wf_env s \<Longrightarrow> wf_env (seen s x y)"
  by (simp add: seen_def wf_env_def has_shape_set2)

lemma seen_in_bounds [simp]: "in_bounds (seen s x y) = in_bounds s"
  by (simp add: in_bounds_def fun_eq_iff)

lemma on_ray_cong:
  "true_map s' = true_map s \<Longrightarrow> height s' = height s \<Longrightarrow> width s' = width s \<Longrightarrow>
   on_ray dx dy s' = on_ray dx dy s"
  by (simp add: on_ray_def reaches_def in_bounds_def fun_eq_iff)

lemma seen_on_ray [simp]: "on_ray dx dy (seen s x y) = on_ray dx dy s"
  by (rule on_ray_cong) simp_all

lemma seen_belief:
  assumes "wf_env s" "in_bounds s x y" "0 \<le> r" "0 \<le> c"
  shows "get2 (belief_map (seen s x y)) r c =
         (if r = x \<and> c = y \<and> get2 (belief_map s) x y = UNKNOWN then get2 (true_map s) x y
          else get2 (belief_map s) r c)"
  using assms get2_set2[of "height s" "width s" "belief_map s" x y r c]
  by (auto simp: seen_def wf_env_def in_bounds_def)

lemma length_filter_update:
  assumes "j < length xs" "\<not> P (xs ! j)" "P v"
  shows "length (filter P (xs[j := v])) = Suc (length (filter P xs))"
proof -
  have xs: "xs = take j xs @ xs ! j # drop (Suc j) xs" using assms(1) by (rule id_take_nth_drop)
  have "length (filter P xs) = length (filter P (take j xs @ xs ! j # drop (Suc j) xs))"
    using xs by simp
  then have a: "length (filter P xs) =
      length (filter P (take j xs)) + length (filter P (drop (Suc j) xs))"
    using assms(2) by simp
  have "xs[j := v] = take j xs @ v # drop (Suc j) xs"
    using assms(1) by (rule upd_conv_take_nth_drop)
  then show ?thesis using a assms(3) by simp
qed

lemma count_known_set2:
  assumes "has_shape h w m" "0 \<le> i" "i < h" "0 \<le> j" "j < w"
    "get2 m i j = UNKNOWN" "v \<noteq> UNKNOWN"
  shows "count_known (set2 m i j v) = count_known m + 1"
proof -
  let ?P = "\<lambda>v. v \<noteq> UNKNOWN"
  have i: "nat i < length m" using assms by (simp add: has_shape_def)
  then have "m ! nat i \<in> set m" by simp
  then have j: "nat j < length (m ! nat i)" using assms by (simp add: has_shape_def)
  have u: "\<not> ?P (m ! nat i ! nat j)" using assms(6) by (simp add: get2_def)
  have row: "length (filter ?P ((m ! nat i)[nat j := v])) = Suc (length (filter ?P (m ! nat i)))"
    using j u assms(7) by (rule length_filter_update)
  have m: "m = take (nat i) m @ m ! nat i # drop (Suc (nat i)) m"
    using i by (rule id_take_nth_drop)
  have m': "set2 m i j v = take (nat i) m @ (m ! nat i)[nat j := v] # drop (Suc (nat i)) m"
    unfolding set2_def using i by (rule upd_conv_take_nth_drop)
  have "count_known m = int (length (filter ?P (concat (take (nat i) m))) +
      length (filter ?P (m ! nat i)) + length (filter ?P (concat (drop (Suc (nat i)) m))))"
    unfolding count_known_def by (subst m) simp
  moreover have "count_known (set2 m i j v) = int (length (filter ?P (concat (take (nat i) m))) +
      length (filter ?P ((m ! nat i)[nat j := v])) + length (filter ?P (concat (drop (Suc (nat i)) m))))"
    unfolding count_known_def m' by simp
  ultimately show ?thesis using row by simp
qed

lemma no_unknown_get2:
  assumes "wf_env s" "no_unknown s" "in_bounds s x y"
  shows "get2 (true_map s) x y \<noteq> UNKNOWN"
proof -
  have i: "nat x < length (true_map s)"
    using assms(1,3) by (simp add: wf_env_def has_shape_def in_bounds_def)
  then have row: "true_map s ! nat x \<in> set (true_map s)" by simp
  then have "nat y < length (true_map s ! nat x)"
    using assms(1,3) by (simp add: wf_env_def has_shape_def in_bounds_def)
  then have "true_map s ! nat x ! nat y \<in> set (true_map s ! nat x)" by simp
  then show ?thesis using assms(2) row unfolding no_unknown_def get2_def by blast
qed

lemma seen_count:
  assumes "wf_env s" "in_bounds s x y" "get2 (true_map s) x y \<noteq> UNKNOWN"
  shows "count_known (belief_map (seen s x y)) = count_known (belief_map s) + fresh s x y"
  using assms count_known_set2[of "height s" "width s" "belief_map s" x y "get2 (true_map s) x y"]
  by (auto simp: seen_def fresh_def wf_env_def in_bounds_def)



lemma ray_iter_frame:
  "ray_iter k dx dy s n x y = Some (s', n') \<Longrightarrow>
   true_map s' = true_map s \<and> height s' = height s \<and> width s' = width s \<and>
   agent_pos s' = agent_pos s \<and> agent_dir s' = agent_dir s \<and> (wf_env s \<longrightarrow> wf_env s')"
proof (induction k arbitrary: s n x y)
  case 0
  then show ?case by simp
next
  case (Suc k)
  show ?case
  proof (cases "in_bounds s (x + dx) (y + dy) \<and> get2 (true_map s) (x + dx) (y + dy) \<noteq> WALL")
    case True
    then have "ray_iter k dx dy (seen s (x + dx) (y + dy)) (n + fresh s (x + dx) (y + dy))
        (x + dx) (y + dy) = Some (s', n')"
      using Suc.prems by (simp add: ray_iter_Suc)
    from Suc.IH[OF this] show ?thesis by (simp add: seen_wf)
  next
    case False
    then show ?thesis using Suc.prems by (auto simp: ray_iter_Suc seen_wf split: if_splits)
  qed
qed

lemma ray_iter_belief:
  assumes "valid_dir dx dy"
  shows "wf_env s \<Longrightarrow> ray_iter k dx dy s n x y = Some (s', n') \<Longrightarrow>
         in_bounds s r c \<Longrightarrow>
         get2 (belief_map s') r c =
           (if on_ray dx dy s x y r c \<and> get2 (belief_map s) r c = UNKNOWN
            then get2 (true_map s) r c else get2 (belief_map s) r c)"
proof (induction k arbitrary: s n x y)
  case 0
  then show ?case by simp
next
  case (Suc k)
  let ?x = "x + dx" and ?y = "y + dy"
  have rc: "0 \<le> r" "0 \<le> c" using Suc.prems(3) by (simp_all add: in_bounds_def)
  show ?case
  proof (cases "in_bounds s ?x ?y")
    case False
    then have "s' = s" using Suc.prems(2) by (simp add: ray_iter_Suc)
    moreover have "\<not> on_ray dx dy s x y r c" using False on_ray_step[OF assms] by blast
    ultimately show ?thesis by simp
  next
    case ib: True
    note sb = seen_belief[OF Suc.prems(1) ib rc]
    show ?thesis
    proof (cases "get2 (true_map s) ?x ?y = WALL")
      case True
      then have "s' = seen s ?x ?y" using Suc.prems(2) ib by (simp add: ray_iter_Suc)
      moreover have "on_ray dx dy s x y r c \<longleftrightarrow> r = ?x \<and> c = ?y"
        using True ib on_ray_step[OF assms, of s x y r c] by blast
      ultimately show ?thesis using sb by auto
    next
      case False
      then have it: "ray_iter k dx dy (seen s ?x ?y) (n + fresh s ?x ?y) ?x ?y = Some (s', n')"
        using Suc.prems(2) ib by (simp add: ray_iter_Suc)
      have "in_bounds (seen s ?x ?y) r c" using Suc.prems(3) by simp
      from Suc.IH[OF seen_wf[OF Suc.prems(1)] it this]
      have ih: "get2 (belief_map s') r c =
           (if on_ray dx dy s ?x ?y r c \<and> get2 (belief_map (seen s ?x ?y)) r c = UNKNOWN
            then get2 (true_map s) r c else get2 (belief_map (seen s ?x ?y)) r c)"
        by simp
      have st: "on_ray dx dy s x y r c \<longleftrightarrow> (r = ?x \<and> c = ?y) \<or> on_ray dx dy s ?x ?y r c"
        using False ib on_ray_step[OF assms, of s x y r c] by blast
      show ?thesis unfolding ih sb st by auto
    qed
  qed
qed

lemma ray_iter_count:
  "wf_env s \<Longrightarrow> no_unknown s \<Longrightarrow> ray_iter k dx dy s n x y = Some (s', n') \<Longrightarrow>
   count_known (belief_map s') = count_known (belief_map s) + (n' - n)"
proof (induction k arbitrary: s n x y)
  case 0
  then show ?case by simp
next
  case (Suc k)
  let ?x = "x + dx" and ?y = "y + dy"
  show ?case
  proof (cases "in_bounds s ?x ?y")
    case False
    then show ?thesis using Suc.prems(3) by (simp add: ray_iter_Suc)
  next
    case ib: True
    have sc: "count_known (belief_map (seen s ?x ?y)) = count_known (belief_map s) + fresh s ?x ?y"
      using seen_count[OF Suc.prems(1) ib] no_unknown_get2[OF Suc.prems(1,2) ib] by simp
    show ?thesis
    proof (cases "get2 (true_map s) ?x ?y = WALL")
      case True
      then show ?thesis using Suc.prems(3) ib sc by (auto simp: ray_iter_Suc)
    next
      case False
      then have it: "ray_iter k dx dy (seen s ?x ?y) (n + fresh s ?x ?y) ?x ?y = Some (s', n')"
        using Suc.prems(3) ib by (simp add: ray_iter_Suc)
      have "no_unknown (seen s ?x ?y)" using Suc.prems(2) by (simp add: no_unknown_def)
      from Suc.IH[OF seen_wf[OF Suc.prems(1)] this it] sc show ?thesis by simp
    qed
  qed
qed

text \<open>The same facts for \<open>ray_march\<close>, which is the bounded loop with enough iterations.\<close>

lemma ray_march_frame:
  assumes "valid_dir dx dy" "ray_march dx dy s n x y = Some (s', n')"
  shows "true_map s' = true_map s \<and> height s' = height s \<and> width s' = width s \<and>
         agent_pos s' = agent_pos s \<and> agent_dir s' = agent_dir s \<and> (wf_env s \<longrightarrow> wf_env s')"
  using assms ray_iter_frame unfolding ray_march_eq_iter[OF assms(1)] by blast

lemma ray_march_belief:
  assumes "valid_dir dx dy" "wf_env s" "ray_march dx dy s n x y = Some (s', n')" "in_bounds s r c"
  shows "get2 (belief_map s') r c =
           (if on_ray dx dy s x y r c \<and> get2 (belief_map s) r c = UNKNOWN
            then get2 (true_map s) r c else get2 (belief_map s) r c)"
  using assms(3) ray_iter_belief[OF assms(1,2) _ assms(4)]
  unfolding ray_march_eq_iter[OF assms(1)] by blast

lemma ray_march_count:
  assumes "valid_dir dx dy" "wf_env s" "no_unknown s" "ray_march dx dy s n x y = Some (s', n')"
  shows "count_known (belief_map s') = count_known (belief_map s) + (n' - n)"
  using assms(4) ray_iter_count[OF assms(2,3)]
  unfolding ray_march_eq_iter[OF assms(1)] by blast


lemma dirs_ok_Cons: "dirs_ok ((dx, dy) # ds) \<Longrightarrow> \<not> (dx = 0 \<and> dy = 0) \<Longrightarrow> valid_dir dx dy"
  and dirs_ok_tl: "dirs_ok (d # ds) \<Longrightarrow> dirs_ok ds"
  by (auto simp: dirs_ok_def)

lemma scan_dirs_frame:
  "dirs_ok ds \<Longrightarrow> scan_dirs ds s n = Some (s', n') \<Longrightarrow>
   true_map s' = true_map s \<and> height s' = height s \<and> width s' = width s \<and>
   agent_pos s' = agent_pos s \<and> agent_dir s' = agent_dir s \<and> (wf_env s \<longrightarrow> wf_env s')"
proof (induction ds arbitrary: s n)
  case Nil
  then show ?case by simp
next
  case (Cons d ds)
  obtain dx dy where d: "d = (dx, dy)" by (cases d)
  have ok: "dirs_ok ds" using Cons.prems(1) by (rule dirs_ok_tl)
  show ?case
  proof (cases "dx = 0 \<and> dy = 0")
    case True
    then show ?thesis using Cons.IH[OF ok] Cons.prems(2) d by simp
  next
    case False
    then have v: "valid_dir dx dy" using Cons.prems(1) d dirs_ok_Cons by blast
    obtain s1 n1 where
      r: "ray_march dx dy s n (fst (agent_pos s)) (snd (agent_pos s)) = Some (s1, n1)"
      and rest: "scan_dirs ds s1 n1 = Some (s', n')"
      using Cons.prems(2) False d by (auto split: option.splits)
    from ray_march_frame[OF v r] Cons.IH[OF ok rest] show ?thesis by simp
  qed
qed

lemma scan_dirs_belief:
  "dirs_ok ds \<Longrightarrow> wf_env s \<Longrightarrow> scan_dirs ds s n = Some (s', n') \<Longrightarrow> in_bounds s r c \<Longrightarrow>
   get2 (belief_map s') r c =
     (if (\<exists>d \<in> set ds. d \<noteq> (0, 0) \<and>
            on_ray (fst d) (snd d) s (fst (agent_pos s)) (snd (agent_pos s)) r c) \<and>
         get2 (belief_map s) r c = UNKNOWN
      then get2 (true_map s) r c else get2 (belief_map s) r c)"
proof (induction ds arbitrary: s n)
  case Nil
  then show ?case by simp
next
  case (Cons d ds)
  obtain dx dy where d: "d = (dx, dy)" by (cases d)
  have ok: "dirs_ok ds" using Cons.prems(1) by (rule dirs_ok_tl)
  show ?case
  proof (cases "dx = 0 \<and> dy = 0")
    case True
    then have "scan_dirs ds s n = Some (s', n')" using Cons.prems(3) d by simp
    from Cons.IH[OF ok Cons.prems(2) this Cons.prems(4)] show ?thesis using True d by simp
  next
    case False
    then have v: "valid_dir dx dy" using Cons.prems(1) d dirs_ok_Cons by blast
    obtain s1 n1 where
      r: "ray_march dx dy s n (fst (agent_pos s)) (snd (agent_pos s)) = Some (s1, n1)"
      and rest: "scan_dirs ds s1 n1 = Some (s', n')"
      using Cons.prems(3) False d by (auto split: option.splits)
    note fr = ray_march_frame[OF v r]
    have wf1: "wf_env s1" using fr Cons.prems(2) by simp
    have ib1: "in_bounds s1 r c" using fr Cons.prems(4) by (simp add: in_bounds_def)
    have oc: "on_ray a b s1 = on_ray a b s" for a b
      using fr by (intro on_ray_cong) simp_all
    have eqs: "true_map s1 = true_map s" "agent_pos s1 = agent_pos s" using fr by simp_all
    note b1 = ray_march_belief[OF v Cons.prems(2) r Cons.prems(4)]
    have ih: "get2 (belief_map s') r c =
     (if (\<exists>d \<in> set ds. d \<noteq> (0, 0) \<and>
            on_ray (fst d) (snd d) s (fst (agent_pos s)) (snd (agent_pos s)) r c) \<and>
         get2 (belief_map s1) r c = UNKNOWN
      then get2 (true_map s) r c else get2 (belief_map s1) r c)"
      using Cons.IH[OF ok wf1 rest ib1] unfolding oc eqs .
    have dne: "d \<noteq> (0, 0)" using False d by simp
    show ?thesis unfolding ih b1 using dne d by auto
  qed
qed

lemma scan_dirs_count:
  "dirs_ok ds \<Longrightarrow> wf_env s \<Longrightarrow> no_unknown s \<Longrightarrow> scan_dirs ds s n = Some (s', n') \<Longrightarrow>
   count_known (belief_map s') = count_known (belief_map s) + (n' - n)"
proof (induction ds arbitrary: s n)
  case Nil
  then show ?case by simp
next
  case (Cons d ds)
  obtain dx dy where d: "d = (dx, dy)" by (cases d)
  have ok: "dirs_ok ds" using Cons.prems(1) by (rule dirs_ok_tl)
  show ?case
  proof (cases "dx = 0 \<and> dy = 0")
    case True
    then have "scan_dirs ds s n = Some (s', n')" using Cons.prems(4) d by simp
    from Cons.IH[OF ok Cons.prems(2,3) this] show ?thesis .
  next
    case False
    then have v: "valid_dir dx dy" using Cons.prems(1) d dirs_ok_Cons by blast
    obtain s1 n1 where
      r: "ray_march dx dy s n (fst (agent_pos s)) (snd (agent_pos s)) = Some (s1, n1)"
      and rest: "scan_dirs ds s1 n1 = Some (s', n')"
      using Cons.prems(4) False d by (auto split: option.splits)
    note fr = ray_march_frame[OF v r]
    have wf1: "wf_env s1" using fr Cons.prems(2) by simp
    have nu1: "no_unknown s1" using fr Cons.prems(3) by (simp add: no_unknown_def)
    from ray_march_count[OF v Cons.prems(2,3) r] Cons.IH[OF ok wf1 nu1 rest]
    show ?thesis by simp
  qed
qed

lemma eight_dirs_ok: "dirs_ok (List.product [-1, 0, 1] [-1, 0, 1])"
  unfolding dirs_ok_def by (rule eight_dirs)

lemma scan_frame:
  assumes "update_belief_map_with_lidar s = Some (s', n)"
  shows "true_map s' = true_map s \<and> height s' = height s \<and> width s' = width s \<and>
         agent_pos s' = agent_pos s \<and> agent_dir s' = agent_dir s \<and> (wf_env s \<longrightarrow> wf_env s')"
  using assms scan_dirs_frame[OF eight_dirs_ok] unfolding update_belief_map_with_lidar_def
  by blast

lemma scan_belief:
  assumes "wf_env s" "update_belief_map_with_lidar s = Some (s', n)" "in_bounds s r c"
  shows "get2 (belief_map s') r c =
     (if visible s r c \<and> get2 (belief_map s) r c = UNKNOWN
      then get2 (true_map s) r c else get2 (belief_map s) r c)"
  using scan_dirs_belief[OF eight_dirs_ok assms(1) _ assms(3)] assms(2)
  unfolding update_belief_map_with_lidar_def visible_def by blast

lemma scan_count:
  assumes "wf_env s" "no_unknown s" "update_belief_map_with_lidar s = Some (s', n)"
  shows "count_known (belief_map s') = count_known (belief_map s) + n"
  using scan_dirs_count[OF eight_dirs_ok assms(1,2)] assms(3)
  unfolding update_belief_map_with_lidar_def by fastforce

section \<open>Steps and discovery\<close>

lemma move_frame:
  assumes "move s a = Inr (s2, coll)"
  shows "true_map s2 = true_map s \<and> belief_map s2 = belief_map s \<and>
         height s2 = height s \<and> width s2 = width s"
  using assms unfolding move_def
  by (auto simp: Let_def split: option.splits if_splits)

lemma move_wf: "move s a = Inr (s2, coll) \<Longrightarrow> wf_env s \<Longrightarrow> wf_env s2"
  using move_frame[of s a s2 coll] by (simp add: wf_env_def)

lemma stepE:
  assumes "step s a = Some (Inr (s', obs, rw, d))"
  obtains s2 coll n c where "move s a = Inr (s2, coll)"
    "update_belief_map_with_lidar s2 = Some (s', n)"
    "coverage (belief_map s') = Inr c" "obs = get_observation s'"
    "rw = reward_of coll n" "d = (fl (95 / 100) < c)"
  using assms unfolding step_def
  by (auto split: sum.splits option.splits prod.splits)

lemma step_frame:
  assumes "step s a = Some (Inr (s', obs, rw, d))"
  shows "true_map s' = true_map s \<and> height s' = height s \<and> width s' = width s \<and>
         (wf_env s \<longrightarrow> wf_env s')"
proof -
  from assms obtain s2 coll n where m: "move s a = Inr (s2, coll)"
    and u: "update_belief_map_with_lidar s2 = Some (s', n)"
    by (rule stepE)
  from move_frame[OF m] move_wf[OF m] scan_frame[OF u] show ?thesis by auto
qed

lemma step_known:
  assumes "step s a = Some (Inr (s', obs, rw, d))" "wf_env s" "in_bounds s r c"
    "get2 (belief_map s) r c \<noteq> UNKNOWN"
  shows "get2 (belief_map s') r c = get2 (belief_map s) r c"
proof -
  from assms(1) obtain s2 coll n where m: "move s a = Inr (s2, coll)"
    and u: "update_belief_map_with_lidar s2 = Some (s', n)"
    by (rule stepE)
  note f = move_frame[OF m]
  have "in_bounds s2 r c" using f assms(3) by (simp add: in_bounds_def)
  from scan_belief[OF move_wf[OF m assms(2)] u this] show ?thesis using f assms(4) by simp
qed

lemma steps_known:
  "steps s as = Some (Inr s') \<Longrightarrow> wf_env s \<Longrightarrow> in_bounds s r c \<Longrightarrow>
   get2 (belief_map s) r c \<noteq> UNKNOWN \<Longrightarrow>
   get2 (belief_map s') r c = get2 (belief_map s) r c"
proof (induction as arbitrary: s)
  case Nil
  then show ?case by simp
next
  case (Cons a as)
  from Cons.prems(1) obtain s1 obs rw d where
    st: "step s a = Some (Inr (s1, obs, rw, d))" and rest: "steps s1 as = Some (Inr s')"
    by (auto split: option.splits sum.splits)
  note f = step_frame[OF st]
  have k: "get2 (belief_map s1) r c = get2 (belief_map s) r c"
    using step_known[OF st Cons.prems(2,3,4)] .
  have "in_bounds s1 r c" using f Cons.prems(3) by (simp add: in_bounds_def)
  from Cons.IH[OF rest _ this] f Cons.prems(2,4) k show ?case by simp
qed

text \<open>
  C1. In an environment whose arrays have the shape \<open>(height, width)\<close>, a cell of
  the belief map that is not unknown keeps its value through a scan, and so
  through any run of steps: the scan writes only where the belief map holds
  \<open>UNKNOWN\<close>.
\<close>

theorem monotonic_discovery:
  assumes "wf_env s" "in_bounds s r c" "get2 (belief_map s) r c \<noteq> UNKNOWN"
  shows "(\<forall>s' n. update_belief_map_with_lidar s = Some (s', n) \<longrightarrow>
            get2 (belief_map s') r c = get2 (belief_map s) r c) \<and>
         (\<forall>as s'. steps s as = Some (Inr s') \<longrightarrow>
            get2 (belief_map s') r c = get2 (belief_map s) r c)"
  using assms scan_belief steps_known by simp

lemma room_wf: "wf_env room"
  by (simp add: wf_env_def has_shape_def room_def)

lemma room0_wf: "wf_env room0"
  by (simp add: wf_env_def has_shape_def room0_def)

lemma room0_scan: "update_belief_map_with_lidar room0 = Some (room, 11)"
  by code_simp

theorem monotonic_discovery_witness:
  "wf_env room \<and> in_bounds room 1 2 \<and> get2 (belief_map room) 1 2 \<noteq> UNKNOWN \<and>
   steps room [2, 0, 1, 0] = Some (Inr room_end) \<and>
   get2 (belief_map room_end) 1 2 = get2 (belief_map room) 1 2"
proof -
  have a: "in_bounds room 1 2" by (simp add: in_bounds_def room_def)
  have b: "get2 (belief_map room) 1 2 \<noteq> UNKNOWN" by (simp add: room_def get2_def UNKNOWN_def)
  have c: "steps room [2, 0, 1, 0] = Some (Inr room_end)" by code_simp
  from monotonic_discovery[OF room_wf a b] c
  have "get2 (belief_map room_end) 1 2 = get2 (belief_map room) 1 2" by blast
  with room_wf a b c show ?thesis by blast
qed

text \<open>
  C2. In an environment whose arrays have the shape \<open>(height, width)\<close> the scan
  returns; it changes neither the ground truth nor the pose; afterwards a cell
  holds its true value if it was unknown and is visible, that is, on one of the
  eight rays from the agent before or at the first wall of the ray and inside
  the map, and every other cell is as before. When no cell of the ground truth
  holds the code of an unknown cell, the returned count is the number of cells
  that left the unknown status.
\<close>

theorem scan_correct:
  assumes "wf_env s"
  shows "\<exists>s' n. update_belief_map_with_lidar s = Some (s', n) \<and>
           true_map s' = true_map s \<and> agent_pos s' = agent_pos s \<and>
           agent_dir s' = agent_dir s \<and> wf_env s' \<and>
           (\<forall>r c. in_bounds s r c \<longrightarrow>
              get2 (belief_map s') r c =
                (if visible s r c \<and> get2 (belief_map s) r c = UNKNOWN
                 then get2 (true_map s) r c else get2 (belief_map s) r c)) \<and>
           (no_unknown s \<longrightarrow>
              n = count_known (belief_map s') - count_known (belief_map s))"
proof -
  obtain s' n where u: "update_belief_map_with_lidar s = Some (s', n)"
    using scan_returns by blast
  have "no_unknown s \<longrightarrow> n = count_known (belief_map s') - count_known (belief_map s)"
    using scan_count[OF assms _ u] by simp
  then show ?thesis using u scan_frame[OF u] scan_belief[OF assms u] assms by auto
qed

theorem scan_correct_witness:
  "wf_env room0 \<and> no_unknown room0 \<and> in_bounds room0 1 2 \<and> visible room0 1 2 \<and>
   update_belief_map_with_lidar room0 = Some (room, 11) \<and>
   get2 (belief_map room) 1 2 = get2 (true_map room0) 1 2 \<and>
   11 = count_known (belief_map room) - count_known (belief_map room0)"
proof -
  have nu: "no_unknown room0" by (simp add: no_unknown_def room0_def UNKNOWN_def)
  have ib: "in_bounds room0 1 2" by (simp add: in_bounds_def room0_def)
  have u: "get2 (belief_map room0) 1 2 = UNKNOWN" by (simp add: room0_def get2_def UNKNOWN_def)
  have "reaches 0 1 room0 1 1 1" by (simp add: reaches_def in_bounds_def room0_def)
  then have "on_ray 0 1 room0 (fst (agent_pos room0)) (snd (agent_pos room0)) 1 2"
    unfolding on_ray_def by (intro bexI[of _ 1]) (simp_all add: room0_def)
  then have v: "visible room0 1 2"
    unfolding visible_def by (intro bexI[of _ "(0, 1)"]) simp_all
  from scan_correct[OF room0_wf] room0_scan
  have "(\<forall>r c. in_bounds room0 r c \<longrightarrow>
              get2 (belief_map room) r c =
                (if visible room0 r c \<and> get2 (belief_map room0) r c = UNKNOWN
                 then get2 (true_map room0) r c else get2 (belief_map room0) r c)) \<and>
        (no_unknown room0 \<longrightarrow>
              11 = count_known (belief_map room) - count_known (belief_map room0))"
    by auto
  with nu ib u v room0_wf room0_scan show ?thesis by simp
qed

section \<open>Invariants of the reachable environments\<close>

lemma visible_cong:
  "true_map s' = true_map s \<Longrightarrow> height s' = height s \<Longrightarrow> width s' = width s \<Longrightarrow>
   agent_pos s' = agent_pos s \<Longrightarrow> visible s' = visible s"
  using on_ray_cong[of s' s] by (simp add: visible_def fun_eq_iff)

lemma scan_scanned:
  assumes "wf_env s" "update_belief_map_with_lidar s = Some (s', n)"
  shows "scanned s'"
proof -
  note f = scan_frame[OF assms(2)]
  have v: "visible s' = visible s" using f by (intro visible_cong) simp_all
  show ?thesis
    unfolding scanned_def
  proof (intro ballI impI)
    fix r c assume r: "r \<in> {0..<height s'}" and c: "c \<in> {0..<width s'}"
      and h: "visible s' r c \<and> get2 (belief_map s') r c = UNKNOWN"
    have "in_bounds s r c" using r c f by (simp add: in_bounds_def)
    from scan_belief[OF assms this] h show "get2 (true_map s') r c = UNKNOWN"
      using f v by (auto split: if_splits)
  qed
qed

lemma grid_eqI:
  assumes "has_shape h w a" "has_shape h w b"
    "\<And>r c. 0 \<le> r \<Longrightarrow> r < h \<Longrightarrow> 0 \<le> c \<Longrightarrow> c < w \<Longrightarrow> get2 a r c = get2 b r c"
  shows "a = b"
proof (rule nth_equalityI)
  show "length a = length b" using assms(1,2) by (simp add: has_shape_def)
next
  fix i assume i: "i < length a"
  then have ib: "i < length b" using assms(1,2) by (simp add: has_shape_def)
  have ih: "int i < h" using i assms(1) by (simp add: has_shape_def)
  have la: "length (a ! i) = nat w" using i assms(1) by (simp add: has_shape_def)
  have lb: "length (b ! i) = nat w" using ib assms(2) by (simp add: has_shape_def)
  show "a ! i = b ! i"
  proof (rule nth_equalityI)
    show "length (a ! i) = length (b ! i)" using la lb by simp
  next
    fix j assume "j < length (a ! i)"
    then have "int j < w" using la by simp
    from assms(3)[of "int i" "int j"] ih this show "a ! i ! j = b ! i ! j"
      by (simp add: get2_def)
  qed
qed

lemma rescan_same:
  assumes "wf_env s" "scanned s" "update_belief_map_with_lidar s = Some (s', n)"
  shows "s' = s"
proof -
  note f = scan_frame[OF assms(3)]
  have "belief_map s' = belief_map s"
  proof (rule grid_eqI[of "height s" "width s"])
    show "has_shape (height s) (width s) (belief_map s')"
      using f assms(1) by (auto simp: wf_env_def)
    show "has_shape (height s) (width s) (belief_map s)"
      using assms(1) by (simp add: wf_env_def)
  next
    fix r c assume rc: "0 \<le> r" "r < height s" "0 \<le> c" "c < width s"
    then have "in_bounds s r c" by (simp add: in_bounds_def)
    from scan_belief[OF assms(1,3) this] assms(2) rc
    show "get2 (belief_map s') r c = get2 (belief_map s) r c"
      by (auto simp: scanned_def)
  qed
  then show ?thesis using f by (intro env.equality) simp_all
qed

lemma rescan_count:
  assumes "wf_env s" "scanned s" "no_unknown s" "update_belief_map_with_lidar s = Some (s', n)"
  shows "n = 0"
  using scan_count[OF assms(1,3,4)] rescan_same[OF assms(1,2,4)] by simp

lemma length_concat_shape: "has_shape h w m \<Longrightarrow> length (concat m) = nat h * nat w"
proof -
  assume a: "has_shape h w m"
  have "length (concat m) = sum_list (map length m)" by (simp add: length_concat)
  also have "map length m = replicate (length m) (nat w)"
    using a by (intro replicate_eqI) (auto simp: has_shape_def)
  finally show ?thesis using a by (simp add: sum_list_replicate has_shape_def)
qed

lemma size_of_shape: "has_shape h w m \<Longrightarrow> 0 \<le> h \<Longrightarrow> 0 \<le> w \<Longrightarrow> size_of m = h * w"
  by (simp add: size_of_def length_concat_shape)

lemma coverage_ok:
  assumes "wf_env s" "0 < height s" "0 < width s"
  shows "coverage (belief_map s) =
           Inr (fl (of_int (count_known (belief_map s)) / of_int (height s * width s)))"
proof -
  have "size_of (belief_map s) = height s * width s"
    using assms by (intro size_of_shape) (simp_all add: wf_env_def)
  then show ?thesis using assms by (simp add: coverage_def truediv_def)
qed


lemma np_get2_in_bounds:
  assumes "has_shape h w m" "0 \<le> x" "x < h" "0 \<le> y" "y < w"
  shows "np_get2 m (x, y) = Some (get2 m x y)"
proof -
  have i: "nat x < length m" using assms by (simp add: has_shape_def)
  then have "m ! nat x \<in> set m" by simp
  then have "length (m ! nat x) = nat w" using assms(1) by (simp add: has_shape_def)
  then show ?thesis using assms i
    by (simp add: np_get2_def norm_index_def get2_def has_shape_def)
qed

lemma py_index_directions:
  "0 \<le> d \<Longrightarrow> d < 4 \<Longrightarrow> py_index directions d = Some (directions ! nat d)"
  by (simp add: py_index_def norm_index_def directions_def)

lemma move_forward:
  assumes "0 \<le> agent_dir s" "agent_dir s < 4"
  shows "move s 0 =
     (case np_get2 (true_map s) (candidate s) of
        None \<Rightarrow> Inl IndexError
      | Some v \<Rightarrow> if v = WALL then Inr (s, True)
                  else Inr (s\<lparr>agent_pos := candidate s\<rparr>, False))"
  using py_index_directions[OF assms]
  by (simp add: move_def candidate_def split: option.splits)

lemma move_other:
  assumes "a \<noteq> 0" "pos_ok s"
  shows "move s a = Inr (turned s a, False)"
  using assms by (auto simp: move_def pos_ok_def turned_def Let_def split: option.splits)

lemma move_pose_ok:
  assumes "pose_ok s" "move s a = Inr (s2, coll)"
  shows "pose_ok s2"
proof (cases "a = 0")
  case True
  have d: "0 \<le> agent_dir s" "agent_dir s < 4" using assms(1) by (simp_all add: pose_ok_def)
  show ?thesis
    using assms unfolding True move_forward[OF d]
    by (auto simp: pose_ok_def pos_ok_def wf_env_def split: option.splits if_splits)
next
  case False
  have "pos_ok s" using assms(1) by (simp add: pose_ok_def)
  from move_other[OF False this] assms show ?thesis
    by (auto simp: pose_ok_def pos_ok_def wf_env_def turned_def)
qed

lemma scan_pose_ok:
  assumes "pose_ok s" "update_belief_map_with_lidar s = Some (s', n)"
  shows "pose_ok s' \<and> scanned s'"
proof -
  have wf: "wf_env s" using assms(1) by (simp add: pose_ok_def)
  note f = scan_frame[OF assms(2)]
  have "pose_ok s'" using f assms(1) by (auto simp: pose_ok_def pos_ok_def)
  then show ?thesis using scan_scanned[OF wf assms(2)] by simp
qed

lemma inv_pose: "inv s \<longleftrightarrow> pose_ok s \<and> scanned s"
  by (auto simp: inv_def pose_ok_def)

lemma step_eq:
  assumes "pose_ok s" "move s a = Inr (s2, coll)" "update_belief_map_with_lidar s2 = Some (s3, n)"
  shows "step s a = Some (Inr (s3, get_observation s3, reward_of coll n,
           fl (95 / 100) < fl (of_int (count_known (belief_map s3)) / of_int (height s3 * width s3))))"
proof -
  have "pose_ok s3" using scan_pose_ok[OF move_pose_ok[OF assms(1,2)] assms(3)] by simp
  then have "coverage (belief_map s3) =
           Inr (fl (of_int (count_known (belief_map s3)) / of_int (height s3 * width s3)))"
    by (intro coverage_ok) (simp_all add: pose_ok_def)
  then show ?thesis using assms(2,3) by (simp add: step_def)
qed

lemma step_inv:
  assumes "pose_ok s" "step s a = Some (Inr (s', obs, rw, d))"
  shows "inv s'"
proof -
  from assms(2) obtain s2 coll n where m: "move s a = Inr (s2, coll)"
    and u: "update_belief_map_with_lidar s2 = Some (s', n)"
    by (rule stepE)
  from scan_pose_ok[OF move_pose_ok[OF assms(1) m] u] show ?thesis by (simp add: inv_pose)
qed

lemma argwhere_eq_mem:
  assumes "p \<in> set (argwhere_eq m v)"
  shows "0 \<le> fst p \<and> nat (fst p) < length m \<and> 0 \<le> snd p \<and>
         nat (snd p) < length (m ! nat (fst p)) \<and> m ! nat (fst p) ! nat (snd p) = v"
  using assms unfolding argwhere_eq_def
  by (auto simp: in_set_enumerate_eq)

lemma argwhere_eq_nonempty:
  assumes "i < length m" "j < length (m ! i)" "m ! i ! j = v"
  shows "argwhere_eq m v \<noteq> []"
proof -
  have "(i, m ! i) \<in> set (enumerate 0 m)" using assms(1) by (simp add: in_set_enumerate_eq)
  moreover have "(j, v) \<in> set (enumerate 0 (m ! i))"
    using assms(2,3) by (simp add: in_set_enumerate_eq)
  ultimately have "(int i, int j) \<in> set (argwhere_eq m v)"
    unfolding argwhere_eq_def by (auto intro!: bexI[of _ "(i, m ! i)"] simp: image_iff)
  then show ?thesis by auto
qed

lemma np_full_shape: "has_shape h w (np_full h w v)"
  by (simp add: has_shape_def np_full_def)

lemma resetE:
  assumes "reset s = Some (Inr (s', obs))"
  obtains p ps n where "argwhere_eq (true_map s) EMPTY = p # ps"
    "update_belief_map_with_lidar
       (s\<lparr>agent_pos := p,
          belief_map := set2 (np_full (height s) (width s) UNKNOWN) (fst p) (snd p) EMPTY\<rparr>)
       = Some (s', n)"
  using assms unfolding reset_def
  by (auto simp: Let_def split: list.splits option.splits)

lemma reset_inv:
  assumes "has_shape (height s) (width s) (true_map s)" "0 < height s" "0 < width s"
    "0 \<le> agent_dir s" "agent_dir s < 4" "reset s = Some (Inr (s', obs))"
  shows "inv s' \<and> true_map s' = true_map s"
proof -
  from assms(6) obtain p ps n where a: "argwhere_eq (true_map s) EMPTY = p # ps"
    and u: "update_belief_map_with_lidar
       (s\<lparr>agent_pos := p,
          belief_map := set2 (np_full (height s) (width s) UNKNOWN) (fst p) (snd p) EMPTY\<rparr>)
       = Some (s', n)" (is "update_belief_map_with_lidar ?s3 = _")
    by (rule resetE)
  have "p \<in> set (argwhere_eq (true_map s) EMPTY)" using a by simp
  note pm = argwhere_eq_mem[OF this]
  have px: "fst p < height s" using pm assms(1) by (simp add: has_shape_def)
  have "true_map s ! nat (fst p) \<in> set (true_map s)" using pm by simp
  then have "length (true_map s ! nat (fst p)) = nat (width s)"
    using assms(1) unfolding has_shape_def by blast
  then have py: "snd p < width s" using pm by simp
  have "np_get2 (true_map s) (fst p, snd p) = Some (get2 (true_map s) (fst p) (snd p))"
    using assms(1) pm px py by (intro np_get2_in_bounds) simp_all
  then have "np_get2 (true_map s) p = Some EMPTY" using pm by (simp add: get2_def)
  then have "pos_ok ?s3" by (simp add: pos_ok_def EMPTY_def WALL_def)
  moreover have "wf_env ?s3"
    using assms(1) by (simp add: wf_env_def has_shape_set2 np_full_shape)
  ultimately have "pose_ok ?s3" using assms by (simp add: pose_ok_def)
  from scan_pose_ok[OF this u] scan_frame[OF u] show ?thesis by (simp add: inv_pose)
qed

lemma loadtxt_shape:
  assumes "loadtxt rows = Inr m"
  shows "m = filter (\<lambda>r. r \<noteq> []) rows \<and> has_shape (int (length m)) (int (length (hd m))) m"
  using assms by (auto simp: loadtxt_def Let_def has_shape_def split: if_splits)

lemma initE:
  assumes "init rows = Some (Inr s)"
  obtains m obs where "loadtxt rows = Inr m" "2 \<le> length m" "2 \<le> length (hd m)"
    "reset \<lparr>true_map = m, height = int (length m), width = int (length (hd m)),
            agent_dir = 0, agent_pos = (0, 0), belief_map = []\<rparr> = Some (Inr (s, obs))"
  using assms unfolding init_def
  by (auto split: sum.splits option.splits if_splits)

lemma init_inv:
  assumes "init rows = Some (Inr s)"
  shows "inv s \<and> true_map s = filter (\<lambda>r. r \<noteq> []) rows"
proof -
  from assms obtain m obs where l: "loadtxt rows = Inr m" and h: "2 \<le> length m"
    and w: "2 \<le> length (hd m)"
    and r: "reset \<lparr>true_map = m, height = int (length m), width = int (length (hd m)),
            agent_dir = 0, agent_pos = (0, 0), belief_map = []\<rparr> = Some (Inr (s, obs))"
    by (rule initE)
  note ls = loadtxt_shape[OF l]
  let ?s0 = "\<lparr>true_map = m, height = int (length m), width = int (length (hd m)),
            agent_dir = 0, agent_pos = (0, 0), belief_map = []\<rparr>"
  have "has_shape (height ?s0) (width ?s0) (true_map ?s0)" using ls by auto
  moreover have "0 < height ?s0" "0 < width ?s0" using h w by auto
  moreover have "0 \<le> agent_dir ?s0" "agent_dir ?s0 < 4" by simp_all
  ultimately have "inv s \<and> true_map s = true_map ?s0" using r by (rule reset_inv)
  then show ?thesis using ls by simp
qed

lemma reachable_inv: "reachable s \<Longrightarrow> inv s"
proof (induction rule: reachable.induct)
  case (r_init rows s)
  then show ?case using init_inv by blast
next
  case (r_reset s s' obs)
  then have "pose_ok s" by (simp add: inv_pose)
  then show ?case using reset_inv[OF _ _ _ _ _ r_reset.hyps(2)]
    by (simp add: pose_ok_def wf_env_def)
next
  case (r_step s a s' obs rw d)
  then have "pose_ok s" by (simp add: inv_pose)
  then show ?case using step_inv r_step.hyps(2) by blast
qed

section \<open>Construction, moves and actions\<close>

lemma steps_true_map: "steps s as = Some (Inr s') \<Longrightarrow> true_map s' = true_map s"
proof (induction as arbitrary: s)
  case Nil
  then show ?case by simp
next
  case (Cons a as)
  from Cons.prems obtain s1 obs rw d where
    st: "step s a = Some (Inr (s1, obs, rw, d))" and rest: "steps s1 as = Some (Inr s')"
    by (auto split: option.splits sum.splits)
  from Cons.IH[OF rest] step_frame[OF st] show ?case by simp
qed

lemma reset_true_map: "reset s = Some (Inr (s', obs)) \<Longrightarrow> true_map s' = true_map s"
  by (erule resetE) (auto dest: scan_frame)

lemma reset_returns:
  assumes "argwhere_eq (true_map s) EMPTY \<noteq> []"
  shows "\<exists>s' obs. reset s = Some (Inr (s', obs))"
proof -
  obtain p ps where a: "argwhere_eq (true_map s) EMPTY = p # ps"
    using assms by (cases "argwhere_eq (true_map s) EMPTY") auto
  obtain s' n where "update_belief_map_with_lidar
       (s\<lparr>agent_pos := p,
          belief_map := set2 (np_full (height s) (width s) UNKNOWN) (fst p) (snd p) EMPTY\<rparr>)
       = Some (s', n)"
    using scan_returns by blast
  then show ?thesis using a by (simp add: reset_def Let_def)
qed

lemma loadtxt_ragged:
  assumes "r \<in> set rows" "r' \<in> set rows" "r \<noteq> []" "r' \<noteq> []" "length r \<noteq> length r'"
  shows "loadtxt rows = Inl ValueError"
proof -
  let ?rs = "filter (\<lambda>r. r \<noteq> []) rows"
  have m: "r \<in> set ?rs" "r' \<in> set ?rs" using assms by simp_all
  then have "length r \<noteq> length (hd ?rs) \<or> length r' \<noteq> length (hd ?rs)"
    using assms(5) by auto
  then have "\<exists>r \<in> set ?rs. length r \<noteq> length (hd ?rs)" using m by blast
  then show ?thesis unfolding loadtxt_def Let_def by (simp only: if_True if_cancel)
qed

lemma loadtxt_overflow:
  assumes "r \<in> set rows" "v \<in> set r" "\<not> int64 v"
  shows "loadtxt rows = Inl ValueError"
proof -
  have "r \<noteq> []" using assms(2) by auto
  then have "r \<in> set (filter (\<lambda>r. r \<noteq> []) rows)" using assms(1) by simp
  then have "\<exists>r \<in> set (filter (\<lambda>r. r \<noteq> []) rows). \<exists>v \<in> set r. \<not> int64 v"
    using assms(2,3) by blast
  then show ?thesis unfolding loadtxt_def Let_def by (simp only: if_True)
qed

lemma loadtxt_rect:
  assumes "\<forall>r \<in> set rows. length r = w" "0 < w"
    "\<forall>r \<in> set rows. \<forall>v \<in> set r. int64 v"
  shows "loadtxt rows = Inr rows"
proof -
  have f: "filter (\<lambda>r. r \<noteq> []) rows = rows" using assms by (intro filter_True) auto
  have "length r = length (hd rows)" if "r \<in> set rows" for r
  proof -
    have "rows \<noteq> []" using that by auto
    then have "hd rows \<in> set rows" by simp
    then show ?thesis using assms(1) that by simp
  qed
  then have "\<not> (\<exists>r \<in> set rows. length r \<noteq> length (hd rows))" by blast
  moreover have "\<not> (\<exists>r \<in> set rows. \<exists>v \<in> set r. \<not> int64 v)" using assms(3) by blast
  ultimately show ?thesis unfolding loadtxt_def Let_def f by (simp only: if_False)
qed

lemma init_accepts:
  assumes "2 \<le> length rows" "\<forall>r \<in> set rows. length r = w" "2 \<le> w"
    "r \<in> set rows" "0 \<in> set r" "\<forall>r \<in> set rows. \<forall>v \<in> set r. int64 v"
  shows "\<exists>s. init rows = Some (Inr s) \<and> true_map s = rows"
proof -
  have "0 < w" using assms(3) by simp
  with assms(2) have l: "loadtxt rows = Inr rows" using assms(6) by (rule loadtxt_rect)
  have "rows \<noteq> []" using assms(1) by auto
  then have hd: "length (hd rows) = w" using assms(2) by simp
  let ?s0 = "\<lparr>true_map = rows, height = int (length rows), width = int (length (hd rows)),
            agent_dir = 0, agent_pos = (0, 0), belief_map = []\<rparr>"
  obtain i where i: "i < length rows" "rows ! i = r"
    using assms(4) by (auto simp: in_set_conv_nth)
  obtain j where j: "j < length r" "r ! j = 0"
    using assms(5) by (auto simp: in_set_conv_nth)
  have "argwhere_eq rows EMPTY \<noteq> []"
    using i j by (intro argwhere_eq_nonempty[of i _ j]) (simp_all add: EMPTY_def)
  then have "argwhere_eq (true_map ?s0) EMPTY \<noteq> []" by simp
  from reset_returns[OF this] obtain s obs where r: "reset ?s0 = Some (Inr (s, obs))"
    by blast
  then have "true_map s = rows" using reset_true_map by fastforce
  then show ?thesis using l r assms(1,3) hd by (simp add: init_def)
qed


lemma room_init: "init [[1, 1, 1, 1], [1, 0, 0, 1], [1, 0, 0, 1], [1, 1, 1, 1]] = Some (Inr room)"
  by code_simp

lemma open2_init: "init [[0, 0], [0, 0]] = Some (Inr open2)"
  by code_simp

lemma room_reachable: "reachable room"
  using room_init by (rule r_init)

lemma open2_reachable: "reachable open2"
  using open2_init by (rule r_init)

lemma steps_reachable:
  "reachable s \<Longrightarrow> steps s as = Some (Inr s') \<Longrightarrow> reachable s'"
proof (induction as arbitrary: s)
  case Nil
  then show ?case by simp
next
  case (Cons a as)
  from Cons.prems(2) obtain s1 obs rw d where
    st: "step s a = Some (Inr (s1, obs, rw, d))" and rest: "steps s1 as = Some (Inr s')"
    by (auto split: option.splits sum.splits)
  from Cons.IH[OF r_step[OF Cons.prems(1) st] rest] show ?case .
qed

lemma reachable_pose: "reachable s \<Longrightarrow> pose_ok s"
  using reachable_inv by (simp add: inv_pose)

text \<open>A step whose move succeeds returns.\<close>

lemma step_after_move:
  assumes "pose_ok s" "move s a = Inr (s2, coll)"
  shows "\<exists>s' n d. update_belief_map_with_lidar s2 = Some (s', n) \<and>
           step s a = Some (Inr (s', get_observation s', reward_of coll n, d)) \<and>
           agent_pos s' = agent_pos s2 \<and> agent_dir s' = agent_dir s2"
proof -
  obtain s' n where u: "update_belief_map_with_lidar s2 = Some (s', n)"
    using scan_returns by blast
  from step_eq[OF assms u] scan_frame[OF u] u show ?thesis by blast
qed

text \<open>
  The forward step where the candidate cell lies inside the map. In a reachable
  environment it returns; if the ground truth holds a wall at the candidate the
  position is kept and the reward is that of a collision, otherwise the position
  becomes the candidate and the reward is that of no collision. A turn (action 1
  or 2) keeps the position and is rewarded as no collision.
\<close>

theorem forward_move:
  assumes "reachable s"
  shows "(in_bounds s (fst (candidate s)) (snd (candidate s)) \<longrightarrow>
            (\<exists>s' n d.
               step s 0 = Some (Inr (s', get_observation s',
                  reward_of (get2 (true_map s) (fst (candidate s)) (snd (candidate s)) = WALL) n,
                  d)) \<and>
               update_belief_map_with_lidar
                 (if get2 (true_map s) (fst (candidate s)) (snd (candidate s)) = WALL
                  then s else s\<lparr>agent_pos := candidate s\<rparr>) = Some (s', n) \<and>
               move s 0 =
                 (if get2 (true_map s) (fst (candidate s)) (snd (candidate s)) = WALL
                  then Inr (s, True) else Inr (s\<lparr>agent_pos := candidate s\<rparr>, False)) \<and>
               agent_pos s' =
                 (if get2 (true_map s) (fst (candidate s)) (snd (candidate s)) = WALL
                  then agent_pos s else candidate s) \<and>
               agent_dir s' = agent_dir s)) \<and>
         (\<forall>a \<in> {1, 2}. \<exists>s' n d.
               step s a = Some (Inr (s', get_observation s', reward_of False n, d)) \<and>
               update_belief_map_with_lidar (turned s a) = Some (s', n) \<and>
               move s a = Inr (turned s a, False) \<and> agent_pos s' = agent_pos s)"
proof (intro conjI impI ballI)
  have p: "pose_ok s" using assms by (rule reachable_pose)
  assume ib: "in_bounds s (fst (candidate s)) (snd (candidate s))"
  let ?w = "get2 (true_map s) (fst (candidate s)) (snd (candidate s)) = WALL"
  have "np_get2 (true_map s) (fst (candidate s), snd (candidate s)) =
          Some (get2 (true_map s) (fst (candidate s)) (snd (candidate s)))"
    using p ib by (intro np_get2_in_bounds[of "height s" "width s"])
      (simp_all add: pose_ok_def wf_env_def in_bounds_def)
  then have m: "move s 0 = (if ?w then Inr (s, True) else Inr (s\<lparr>agent_pos := candidate s\<rparr>, False))"
    using p by (simp add: move_forward pose_ok_def)
  show "\<exists>s' n d.
               step s 0 = Some (Inr (s', get_observation s', reward_of ?w n, d)) \<and>
               update_belief_map_with_lidar
                 (if ?w then s else s\<lparr>agent_pos := candidate s\<rparr>) = Some (s', n) \<and>
               move s 0 = (if ?w then Inr (s, True) else Inr (s\<lparr>agent_pos := candidate s\<rparr>, False)) \<and>
               agent_pos s' = (if ?w then agent_pos s else candidate s) \<and>
               agent_dir s' = agent_dir s"
  proof (cases ?w)
    case True
    then have "move s 0 = Inr (s, True)" using m by simp
    from step_after_move[OF p this] m True show ?thesis by auto
  next
    case False
    then have "move s 0 = Inr (s\<lparr>agent_pos := candidate s\<rparr>, False)" using m by simp
    from step_after_move[OF p this] m False show ?thesis by auto
  qed
next
  fix a :: int assume a: "a \<in> {1, 2}"
  have p: "pose_ok s" using assms by (rule reachable_pose)
  have m: "move s a = Inr (turned s a, False)"
    using a p by (intro move_other) (auto simp: pose_ok_def)
  from step_after_move[OF p m] m
  show "\<exists>s' n d. step s a = Some (Inr (s', get_observation s', reward_of False n, d)) \<and>
               update_belief_map_with_lidar (turned s a) = Some (s', n) \<and>
               move s a = Inr (turned s a, False) \<and> agent_pos s' = agent_pos s"
    by (auto simp: turned_def split: if_splits)
qed


theorem forward_move_witness:
  "reachable room \<and> in_bounds room (fst (candidate room)) (snd (candidate room)) \<and>
   move room 0 = Inr (room\<lparr>agent_pos := (1, 2)\<rparr>, False) \<and>
   (1::int) \<in> {1, 2} \<and> move room 1 = Inr (turned room 1, False)"
proof -
  have c: "candidate room = (1, 2)" by (simp add: candidate_def room_def directions_def)
  have ib: "in_bounds room (fst (candidate room)) (snd (candidate room))"
    unfolding c by (simp add: in_bounds_def room_def)
  have nw: "get2 (true_map room) (fst (candidate room)) (snd (candidate room)) \<noteq> WALL"
    unfolding c by (simp add: get2_def room_def WALL_def)
  have one: "(1::int) \<in> {1, 2}" by simp
  note fm = forward_move[OF room_reachable]
  from fm ib nw have "move room 0 = Inr (room\<lparr>agent_pos := candidate room\<rparr>, False)"
    by auto
  moreover from fm one have "move room 1 = Inr (turned room 1, False)" by blast
  ultimately show ?thesis using room_reachable ib c one by simp
qed

text \<open>
  C3 fails on the code. \<^verbatim>\<open>step\<close> reads \<^verbatim>\<open>true_map\<close> at the candidate with no
  bounds check (line 122), where the scan checks its index first (line 85). On
  the map of two rows with a wall in the second column the agent starts at
  \<open>(0, 0)\<close>; a right turn and a forward step bring it to \<open>(1, 0)\<close> facing south,
  with \<^verbatim>\<open>done\<close> false both times; the candidate of the next forward step is
  \<open>(2, 0)\<close>, and the step raises IndexError: it neither keeps the position with a
  collision nor moves.
\<close>

theorem forward_step_raises:
  "init [[0, 1, 0, 0], [0, 1, 0, 0]] = Some (Inr corridor) \<and>
   step corridor 2 =
     Some (Inr (corridor_turned, get_observation corridor_turned, reward_of False 0, False)) \<and>
   step corridor_turned 0 =
     Some (Inr (corridor_south, get_observation corridor_south, reward_of False 0, False)) \<and>
   candidate corridor_south = (2, 0) \<and>
   step corridor_south 0 = Some (Inl IndexError)"
proof -
  have "init [[0, 1, 0, 0], [0, 1, 0, 0]] = Some (Inr corridor)" by code_simp
  moreover have "step corridor 2 =
     Some (Inr (corridor_turned, get_observation corridor_turned, reward_of False 0, False))"
    by code_simp
  moreover have "step corridor_turned 0 =
     Some (Inr (corridor_south, get_observation corridor_south, reward_of False 0, False))"
    by code_simp
  moreover have "candidate corridor_south = (2, 0)" by code_simp
  moreover have "step corridor_south 0 = Some (Inl IndexError)" by code_simp
  ultimately show ?thesis by simp
qed

text \<open>
  C6, as the code has it. \<^verbatim>\<open>step\<close> compares the action with 1, 2 and 0 and has no
  branch for anything else: in a reachable environment a step with another
  action raises nothing and returns with the environment as it was (position,
  orientation and belief map, hence the coverage), the reward being that of a
  step without collision; the scan it repeats finds nothing new when the ground
  truth holds no \<open>-1\<close>.
\<close>

theorem invalid_action:
  assumes "reachable s" "a \<notin> {0, 1, 2}"
  shows "\<exists>n d. step s a = Some (Inr (s, get_observation s, reward_of False n, d)) \<and>
               update_belief_map_with_lidar s = Some (s, n) \<and>
               (no_unknown s \<longrightarrow> n = 0)"
proof -
  have i: "inv s" using assms(1) by (rule reachable_inv)
  then have p: "pose_ok s" and sc: "scanned s" by (simp_all add: inv_pose)
  have wf: "wf_env s" using p by (simp add: pose_ok_def)
  have "turned s a = s" using assms(2) by (simp add: turned_def)
  then have m: "move s a = Inr (s, False)"
    using move_other[of a s] assms(2) p by (simp add: pose_ok_def)
  obtain s' n where u: "update_belief_map_with_lidar s = Some (s', n)"
    using scan_returns by blast
  have same: "s' = s" using rescan_same[OF wf sc u] .
  have "no_unknown s \<longrightarrow> n = 0" using rescan_count[OF wf sc _ u] by blast
  then show ?thesis using step_eq[OF p m u] u same by blast
qed

theorem invalid_action_witness:
  "reachable room \<and> (99::int) \<notin> {0, 1, 2} \<and> no_unknown room \<and>
   (\<exists>d. step room 99 = Some (Inr (room, get_observation room, reward_of False 0, d)))"
proof -
  have a: "(99::int) \<notin> {0, 1, 2}" by simp
  have nu: "no_unknown room" by (simp add: no_unknown_def room_def UNKNOWN_def)
  from invalid_action[OF room_reachable a] nu
  have "\<exists>d. step room 99 = Some (Inr (room, get_observation room, reward_of False 0, d))"
    by auto
  then show ?thesis using room_reachable a nu by blast
qed

theorem invalid_action_counterexample:
  "init [[1, 1, 1, 1], [1, 0, 0, 1], [1, 0, 0, 1], [1, 1, 1, 1]] = Some (Inr room) \<and>
   step room 99 = Some (Inr (room, get_observation room, reward_of False 0, False))"
proof -
  have "step room 99 = Some (Inr (room, get_observation room, reward_of False 0, False))"
    by code_simp
  then show ?thesis using room_init by simp
qed

text \<open>
  C7 fails on the code. On the map of two rows of two free cells, the agent
  starts at \<open>(0, 0)\<close>; after a left turn it faces north, and the forward step
  reads \<^verbatim>\<open>true_map[-1, 0]\<close>, which numpy takes from the last row, finds no wall and
  stores the position \<open>(-1, 0)\<close>, outside the map.
\<close>

theorem agent_leaves_map:
  "init [[0, 0], [0, 0]] = Some (Inr open2) \<and>
   steps open2 [1, 0] = Some (Inr open2_out) \<and>
   agent_pos open2_out = (-1, 0) \<and>
   \<not> in_bounds open2_out (fst (agent_pos open2_out)) (snd (agent_pos open2_out))"
proof -
  have "steps open2 [1, 0] = Some (Inr open2_out)" by code_simp
  moreover have "agent_pos open2_out = (-1, 0)" by (simp add: open2_out_def)
  moreover have "\<not> in_bounds open2_out (fst (agent_pos open2_out)) (snd (agent_pos open2_out))"
    by (simp add: open2_out_def in_bounds_def)
  ultimately show ?thesis using open2_init by simp
qed

section \<open>Loading the map and leaving it\<close>

theorem map_load_counterexample: "init [[0, 2], [1, 1]] = Some (Inr odd_map)"
  by code_simp

text \<open>
  C8, as the code has it. The map is read by \<^verbatim>\<open>np.loadtxt\<close> alone. Construction
  fails with ValueError when two non-blank rows differ in length, and when a
  value does not fit 64 bits; no value is compared with 0 or 1, and every matrix
  of 64-bit integers with at least two rows and two columns and a 0 somewhere is
  accepted as it is; once constructed, the ground truth is changed neither by
  \<^verbatim>\<open>step\<close> nor by \<^verbatim>\<open>reset\<close>.
\<close>

theorem map_load:
  "((\<exists>r \<in> set rows. \<exists>r' \<in> set rows. r \<noteq> [] \<and> r' \<noteq> [] \<and> length r \<noteq> length r') \<longrightarrow>
      init rows = Some (Inl ValueError)) \<and>
   ((\<exists>r \<in> set rows. \<exists>v \<in> set r. v < - (2 ^ 63) \<or> 2 ^ 63 \<le> v) \<longrightarrow>
      init rows = Some (Inl ValueError)) \<and>
   (2 \<le> length rows \<and> 2 \<le> w \<and> (\<forall>r \<in> set rows. length r = w) \<and>
    (\<forall>r \<in> set rows. \<forall>v \<in> set r. - (2 ^ 63) \<le> v \<and> v < 2 ^ 63) \<and>
    (\<exists>r \<in> set rows. 0 \<in> set r) \<longrightarrow>
      (\<exists>s. init rows = Some (Inr s) \<and> true_map s = rows)) \<and>
   (\<forall>s. init rows = Some (Inr s) \<longrightarrow> true_map s = filter (\<lambda>r. r \<noteq> []) rows) \<and>
   (\<forall>s a s' obs rw d. step s a = Some (Inr (s', obs, rw, d)) \<longrightarrow> true_map s' = true_map s) \<and>
   (\<forall>s s' obs. reset s = Some (Inr (s', obs)) \<longrightarrow> true_map s' = true_map s)"
proof (intro conjI impI allI)
  assume "\<exists>r \<in> set rows. \<exists>r' \<in> set rows. r \<noteq> [] \<and> r' \<noteq> [] \<and> length r \<noteq> length r'"
  then have "loadtxt rows = Inl ValueError" using loadtxt_ragged by blast
  then show "init rows = Some (Inl ValueError)" by (simp add: init_def)
next
  assume "\<exists>r \<in> set rows. \<exists>v \<in> set r. v < - (2 ^ 63) \<or> 2 ^ 63 \<le> v"
  then obtain r v where "r \<in> set rows" "v \<in> set r" "\<not> int64 v"
    by (auto simp: int64_def)
  then have "loadtxt rows = Inl ValueError" by (rule loadtxt_overflow)
  then show "init rows = Some (Inl ValueError)" by (simp add: init_def)
next
  assume a: "2 \<le> length rows \<and> 2 \<le> w \<and> (\<forall>r \<in> set rows. length r = w) \<and>
    (\<forall>r \<in> set rows. \<forall>v \<in> set r. - (2 ^ 63) \<le> v \<and> v < 2 ^ 63) \<and>
    (\<exists>r \<in> set rows. 0 \<in> set r)"
  then have "\<forall>r \<in> set rows. \<forall>v \<in> set r. int64 v" by (simp add: int64_def)
  with a show "\<exists>s. init rows = Some (Inr s) \<and> true_map s = rows"
    using init_accepts[of rows w] by blast
next
  fix s assume "init rows = Some (Inr s)"
  then show "true_map s = filter (\<lambda>r. r \<noteq> []) rows" using init_inv by blast
next
  fix s a s' obs rw d assume "step s a = Some (Inr (s', obs, rw, d))"
  then show "true_map s' = true_map s" using step_frame by blast
next
  fix s s' obs assume "reset s = Some (Inr (s', obs))"
  then show "true_map s' = true_map s" by (rule reset_true_map)
qed

theorem map_load_witness:
  "[0, 1] \<in> set [[0, 1], [1::int]] \<and> [1] \<in> set [[0, 1], [1::int]] \<and>
   length [0, 1::int] \<noteq> length [1::int] \<and>
   init [[0, 1], [1]] = Some (Inl ValueError) \<and>
   (2::int) ^ 63 \<le> 9223372036854775808 \<and>
   init [[0, 9223372036854775808], [1, 1]] = Some (Inl ValueError) \<and>
   (\<exists>s. init [[0, 2], [1, 1]] = Some (Inr s) \<and> true_map s = [[0, 2], [1, 1]]) \<and>
   init [[0, 0], [0, 0]] = Some (Inr open2) \<and> true_map open2 = [[0, 0], [0, 0]] \<and>
   step open2 1 = Some (Inr (open2_north, get_observation open2_north, reward_of False 0, True)) \<and>
   true_map open2_north = true_map open2"
proof -
  have "\<exists>r \<in> set [[0, 1], [1::int]]. \<exists>r' \<in> set [[0, 1], [1::int]].
          r \<noteq> [] \<and> r' \<noteq> [] \<and> length r \<noteq> length r'"
    by simp
  with map_load[of "[[0, 1], [1]]"] have a: "init [[0, 1], [1]] = Some (Inl ValueError)"
    by blast
  have big: "(2::int) ^ 63 \<le> 9223372036854775808" by simp
  then have "\<exists>r \<in> set [[0, 9223372036854775808], [1, 1::int]].
          \<exists>v \<in> set r. v < - (2 ^ 63) \<or> 2 ^ 63 \<le> v"
    by simp
  with map_load[of "[[0, 9223372036854775808], [1, 1]]"]
  have b: "init [[0, 9223372036854775808], [1, 1]] = Some (Inl ValueError)" by blast
  have "2 \<le> length [[0, 2], [1, 1::int]] \<and> 2 \<le> (2::nat) \<and>
        (\<forall>r \<in> set [[0, 2], [1, 1::int]]. length r = 2) \<and>
        (\<forall>r \<in> set [[0, 2], [1, 1::int]]. \<forall>v \<in> set r. - (2 ^ 63) \<le> v \<and> v < 2 ^ 63) \<and>
        (\<exists>r \<in> set [[0, 2], [1, 1::int]]. 0 \<in> set r)"
    by simp
  with map_load[of "[[0, 2], [1, 1]]" 2]
  have c: "\<exists>s. init [[0, 2], [1, 1]] = Some (Inr s) \<and> true_map s = [[0, 2], [1, 1]]"
    by blast
  have st: "step open2 1 =
      Some (Inr (open2_north, get_observation open2_north, reward_of False 0, True))"
    by code_simp
  with map_load[of "[[0, 0], [0, 0]]"]
  have "true_map open2_north = true_map open2" by blast
  moreover from map_load[of "[[0, 0], [0, 0]]"] open2_init
  have "true_map open2 = filter (\<lambda>r. r \<noteq> []) [[0, 0], [0, 0]]" by blast
  ultimately show ?thesis using a b c big st open2_init by simp
qed

lemma norm_index_less: "norm_index n i = Some k \<Longrightarrow> k < n"
  by (auto simp: norm_index_def split: if_splits)

lemma np_get2_wrap_row:
  assumes "has_shape h w m" "0 < h" "0 \<le> y" "y < w"
  shows "np_get2 m (-1, y) = Some (get2 m (h - 1) y)"
proof -
  have n: "norm_index (length m) (-1) = Some (nat (h - 1))"
    using assms by (simp add: norm_index_def has_shape_def)
  have "nat (h - 1) < length m" using assms by (simp add: has_shape_def)
  then have "m ! nat (h - 1) \<in> set m" by simp
  then have "length (m ! nat (h - 1)) = nat w" using assms(1) unfolding has_shape_def by blast
  then show ?thesis using n assms by (simp add: np_get2_def get2_def norm_index_def)
qed

lemma np_get2_wrap_col:
  assumes "has_shape h w m" "0 < w" "0 \<le> x" "x < h"
  shows "np_get2 m (x, -1) = Some (get2 m x (w - 1))"
proof -
  have i: "nat x < length m" using assms by (simp add: has_shape_def)
  then have "m ! nat x \<in> set m" by simp
  then have l: "length (m ! nat x) = nat w" using assms(1) unfolding has_shape_def by blast
  have "norm_index (nat w) (-1) = Some (nat (w - 1))"
    using assms by (simp add: norm_index_def)
  then show ?thesis using i l assms by (simp add: np_get2_def get2_def norm_index_def has_shape_def)
qed

lemma np_get2_beyond:
  assumes "has_shape h w m" "0 \<le> h" "0 \<le> w" "h \<le> x \<or> w \<le> y"
  shows "np_get2 m (x, y) = None"
proof (cases "norm_index (length m) x")
  case None
  then show ?thesis by (simp add: np_get2_def)
next
  case (Some i)
  then have "i < length m" by (rule norm_index_less)
  then have "m ! i \<in> set m" by simp
  then have l: "length (m ! i) = nat w" using assms(1) unfolding has_shape_def by blast
  have "x < h" using Some assms(1,2) by (auto simp: norm_index_def has_shape_def split: if_splits)
  then have "w \<le> y" using assms(4) by simp
  then have "norm_index (nat w) y = None" using assms(3) by (simp add: norm_index_def)
  then show ?thesis using Some l by (simp add: np_get2_def)
qed

text \<open>
  C10. \<^verbatim>\<open>step\<close> reads \<^verbatim>\<open>true_map\<close> at the candidate without a bounds check. In a
  reachable environment, a candidate in row \<open>-1\<close> (and a column of the map) is
  tested on the last row and, when that cell is no wall, stored as the position;
  the same for a candidate in column \<open>-1\<close> with the last column; a candidate
  whose row is at least \<open>height\<close> or whose column is at least \<open>width\<close> makes the
  step raise IndexError.
\<close>

theorem out_of_bounds_forward:
  assumes "reachable s"
  shows "(fst (candidate s) = -1 \<and> 0 \<le> snd (candidate s) \<and> snd (candidate s) < width s \<longrightarrow>
            move s 0 =
              (if get2 (true_map s) (height s - 1) (snd (candidate s)) = WALL
               then Inr (s, True) else Inr (s\<lparr>agent_pos := candidate s\<rparr>, False))) \<and>
         (snd (candidate s) = -1 \<and> 0 \<le> fst (candidate s) \<and> fst (candidate s) < height s \<longrightarrow>
            move s 0 =
              (if get2 (true_map s) (fst (candidate s)) (width s - 1) = WALL
               then Inr (s, True) else Inr (s\<lparr>agent_pos := candidate s\<rparr>, False))) \<and>
         (height s \<le> fst (candidate s) \<or> width s \<le> snd (candidate s) \<longrightarrow>
            step s 0 = Some (Inl IndexError))"
proof -
  have p: "pose_ok s" using assms by (rule reachable_pose)
  then have sh: "has_shape (height s) (width s) (true_map s)" and h: "0 < height s"
    and w: "0 < width s" and d: "0 \<le> agent_dir s" "agent_dir s < 4"
    by (simp_all add: pose_ok_def wf_env_def)
  note mf = move_forward[OF d]
  obtain cx cy where c: "candidate s = (cx, cy)" by (cases "candidate s")
  have a: "move s 0 = (if get2 (true_map s) (height s - 1) cy = WALL
               then Inr (s, True) else Inr (s\<lparr>agent_pos := candidate s\<rparr>, False))"
    if "cx = -1" "0 \<le> cy" "cy < width s"
    using np_get2_wrap_row[OF sh h that(2,3)] that(1) unfolding mf c by simp
  have b: "move s 0 = (if get2 (true_map s) cx (width s - 1) = WALL
               then Inr (s, True) else Inr (s\<lparr>agent_pos := candidate s\<rparr>, False))"
    if "cy = -1" "0 \<le> cx" "cx < height s"
    using np_get2_wrap_col[OF sh w that(2,3)] that(1) unfolding mf c by simp
  have e: "step s 0 = Some (Inl IndexError)" if "height s \<le> cx \<or> width s \<le> cy"
  proof -
    have "np_get2 (true_map s) (cx, cy) = None"
      using sh h w that by (intro np_get2_beyond[of "height s" "width s"]) simp_all
    then have "move s 0 = Inl IndexError" unfolding mf c by simp
    then show ?thesis by (simp add: step_def)
  qed
  from a b e show ?thesis unfolding c by simp
qed

theorem out_of_bounds_forward_witness:
  "reachable open2_north \<and> fst (candidate open2_north) = -1 \<and>
   0 \<le> snd (candidate open2_north) \<and> snd (candidate open2_north) < width open2_north \<and>
   move open2_north 0 = Inr (open2_out, False) \<and> fst (agent_pos open2_out) < 0 \<and>
   reachable open2_south \<and> height open2_south \<le> fst (candidate open2_south) \<and>
   step open2_south 0 = Some (Inl IndexError)"
proof -
  have "steps open2 [1] = Some (Inr open2_north)" by code_simp
  then have rn: "reachable open2_north" using steps_reachable[OF open2_reachable] by blast
  have "steps open2 [2, 0] = Some (Inr open2_south)" by code_simp
  then have rs: "reachable open2_south" using steps_reachable[OF open2_reachable] by blast
  have cn: "candidate open2_north = (-1, 0)"
    by (simp add: candidate_def open2_north_def open2_def directions_def)
  have cs: "candidate open2_south = (2, 0)"
    by (simp add: candidate_def open2_south_def open2_def directions_def)
  have hn: "fst (candidate open2_north) = -1 \<and> 0 \<le> snd (candidate open2_north) \<and>
            snd (candidate open2_north) < width open2_north"
    unfolding cn by (simp add: open2_north_def open2_def)
  have hs: "height open2_south \<le> fst (candidate open2_south)"
    unfolding cs by (simp add: open2_south_def open2_def)
  from out_of_bounds_forward[OF rn] hn
  have "move open2_north 0 =
              (if get2 (true_map open2_north) (height open2_north - 1) (snd (candidate open2_north)) = WALL
               then Inr (open2_north, True)
               else Inr (open2_north\<lparr>agent_pos := candidate open2_north\<rparr>, False))"
    by blast
  then have mn: "move open2_north 0 = Inr (open2_out, False)"
    unfolding cn by (simp add: open2_north_def open2_out_def open2_def get2_def WALL_def)
  from out_of_bounds_forward[OF rs] hs
  have es: "step open2_south 0 = Some (Inl IndexError)" by blast
  have "fst (agent_pos open2_out) < 0" by (simp add: open2_out_def)
  with rn rs hn hs mn es show ?thesis by blast
qed

section \<open>Rounding to a float\<close>

lemma rne_of_int [simp]: "rne (of_int k) = k"
  by (simp add: rne_def)

lemma rne_bounds: "\<lfloor>q\<rfloor> \<le> rne q \<and> rne q \<le> \<lfloor>q\<rfloor> + 1"
  by (simp add: rne_def Let_def)

lemma rne_mono:
  assumes "x \<le> y"
  shows "rne x \<le> rne y"
proof (cases "\<lfloor>x\<rfloor> = \<lfloor>y\<rfloor>")
  case False
  then have "\<lfloor>x\<rfloor> + 1 \<le> \<lfloor>y\<rfloor>" using floor_mono[OF assms] by simp
  then show ?thesis using rne_bounds[of x] rne_bounds[of y] by linarith
next
  case True
  then have "x - of_int \<lfloor>x\<rfloor> \<le> y - of_int \<lfloor>y\<rfloor>" using assms by simp
  then show ?thesis using True by (auto simp: rne_def Let_def)
qed

lemma pow2_pos [simp]: "0 < (2::rat) powi e"
  by (simp add: zero_less_power_int)

lemma pow2_add: "(2::rat) powi (a + b) = 2 powi a * 2 powi b"
  by (simp add: power_int_add)

lemma bitlen_rat:
  assumes "0 < p"
  shows "(2::rat) powi (bitlen p - 1) \<le> of_int p \<and> of_int p < (2::rat) powi (bitlen p)"
proof -
  have b: "1 \<le> bitlen p" using assms bitlen_eq_zero_iff[of p] bitlen_nonneg[of p] by linarith
  have "2 ^ nat (bitlen p - 1) \<le> p" "p < 2 ^ nat (bitlen p)"
    using bitlen_bounds[OF assms] by simp_all
  then have "(of_int (2 ^ nat (bitlen p - 1)) :: rat) \<le> of_int p"
    "(of_int p :: rat) < of_int (2 ^ nat (bitlen p))"
    by (simp_all only: of_int_le_iff of_int_less_iff)
  then show ?thesis using b by (simp add: power_int_nonneg_exp)
qed

lemma binade_bounds:
  assumes "0 < x"
  shows "2 powi (binade x) \<le> x \<and> x < 2 powi (binade x + 1)"
proof -
  obtain p q where pq: "quotient_of x = (p, q)" by (cases "quotient_of x")
  have q: "0 < q" using pq by (rule quotient_of_denom_pos)
  have x: "x = of_int p / of_int q" using pq by (rule quotient_of_div)
  have p: "0 < p" using assms q unfolding x by (simp add: zero_less_divide_iff)
  define bp bq where "bp = bitlen p" and "bq = bitlen q"
  have bp: "(2::rat) powi (bp - 1) \<le> of_int p" "of_int p < (2::rat) powi bp"
    using bitlen_rat[OF p] by (simp_all add: bp_def)
  have bq: "(2::rat) powi (bq - 1) \<le> of_int q" "of_int q < (2::rat) powi bq"
    using bitlen_rat[OF q] by (simp_all add: bq_def)
  have qr: "0 < (of_int q :: rat)" using q by simp
  have "2 powi (bp - bq - 1) * of_int q < (2::rat) powi (bp - bq - 1) * 2 powi bq"
    using bq(2) by (simp add: zero_less_power_int)
  also have "\<dots> = 2 powi (bp - 1)" by (simp flip: pow2_add)
  finally have "2 powi (bp - bq - 1) * of_int q < (of_int p :: rat)" using bp(1) by simp
  then have lo: "2 powi (bp - bq - 1) < x" unfolding x using qr by (simp add: pos_less_divide_eq)
  have "(of_int p :: rat) < 2 powi (bp - bq + 1) * 2 powi (bq - 1)"
    using bp(2) by (simp flip: pow2_add)
  also have "\<dots> \<le> 2 powi (bp - bq + 1) * of_int q"
    using bq(1) by (simp add: zero_less_power_int)
  finally have hi: "x < 2 powi (bp - bq + 1)" unfolding x using qr by (simp add: pos_divide_less_eq)
  have d1: "(2::rat) powi (bp - bq - 1 + 1) = 2 powi (bp - bq)" by simp
  show ?thesis
  proof (cases "2 powi (bp - bq) \<le> x")
    case True
    then have "binade x = bp - bq" by (simp add: binade_def pq bp_def bq_def)
    then show ?thesis using True hi by simp
  next
    case False
    then have "binade x = bp - bq - 1" by (simp add: binade_def pq bp_def bq_def)
    then show ?thesis using False lo by (simp add: not_le less_imp_le)
  qed
qed

lemma pow2_split: "(2::rat) powi e = 2 powi k * 2 powi (e - k)"
  using pow2_add[of k "e - k"] by simp

lemma pow2_mono: "a \<le> b \<Longrightarrow> (2::rat) powi a \<le> 2 powi b"
  by (rule power_int_increasing) simp_all

lemma pow2_less_exp:
  assumes "(2::rat) powi a < 2 powi b"
  shows "a < b"
proof (rule ccontr)
  assume "\<not> a < b"
  then have "(2::rat) powi b \<le> 2 powi a" by (intro pow2_mono) simp
  with assms show False by simp
qed

lemma binade_unique:
  assumes "0 < x" "2 powi e \<le> x" "x < 2 powi (e + 1)"
  shows "binade x = e"
proof -
  note b = binade_bounds[OF assms(1)]
  have "(2::rat) powi (binade x) < 2 powi (e + 1)" using b assms(3) by simp
  then have "binade x < e + 1" by (rule pow2_less_exp)
  moreover have "(2::rat) powi e < 2 powi (binade x + 1)" using b assms(2) by simp
  then have "e < binade x + 1" by (rule pow2_less_exp)
  ultimately show ?thesis by simp
qed

lemma fl_eq:
  assumes "x \<noteq> 0" "2 powi e \<le> \<bar>x\<bar>" "\<bar>x\<bar> < 2 powi (e + 1)"
  shows "fl x = of_int (rne (x / 2 powi (e - 52))) * 2 powi (e - 52)"
proof -
  have "binade \<bar>x\<bar> = e" using assms by (intro binade_unique) simp_all
  then show ?thesis using assms(1) by (simp add: fl_def Let_def)
qed

lemma fl_lower:
  assumes "0 < y"
  shows "2 powi (binade y) \<le> fl y"
proof -
  let ?e = "binade y" and ?u = "(2::rat) powi (binade y - 52)"
  have e: "2 powi ?e \<le> y" using binade_bounds[OF assms] by simp
  have b: "(2::rat) powi ?e = of_int (2 ^ 52) * ?u" using pow2_split[of ?e 52] by simp
  then have "of_int (2 ^ 52) \<le> y / ?u" using e by (simp add: pos_le_divide_eq)
  then have "rne (of_int (2 ^ 52)) \<le> rne (y / ?u)" by (rule rne_mono)
  then have "2 ^ 52 \<le> rne (y / ?u)" by (simp only: rne_of_int)
  then have "(of_int (2 ^ 52) :: rat) \<le> of_int (rne (y / ?u))" by (simp only: of_int_le_iff)
  then have a: "of_int (2 ^ 52) * ?u \<le> of_int (rne (y / ?u)) * ?u"
    by (intro mult_right_mono) simp_all
  have c: "fl y = of_int (rne (y / ?u)) * ?u" using assms by (simp add: fl_def Let_def)
  show ?thesis unfolding c b by (rule a)
qed

lemma fl_upper:
  assumes "0 < x"
  shows "fl x \<le> 2 powi (binade x + 1)"
proof -
  let ?e = "binade x" and ?u = "(2::rat) powi (binade x - 52)"
  have e: "x < 2 powi (?e + 1)" using binade_bounds[OF assms] by simp
  have b: "(2::rat) powi (?e + 1) = of_int (2 ^ 53) * ?u" using pow2_split[of "?e + 1" 53] by simp
  then have "x / ?u \<le> of_int (2 ^ 53)" using e by (simp add: pos_divide_le_eq)
  then have "rne (x / ?u) \<le> rne (of_int (2 ^ 53))" by (rule rne_mono)
  then have "rne (x / ?u) \<le> 2 ^ 53" by (simp only: rne_of_int)
  then have "(of_int (rne (x / ?u)) :: rat) \<le> of_int (2 ^ 53)" by (simp only: of_int_le_iff)
  then have a: "of_int (rne (x / ?u)) * ?u \<le> of_int (2 ^ 53) * ?u"
    by (intro mult_right_mono) simp_all
  have c: "fl x = of_int (rne (x / ?u)) * ?u" using assms by (simp add: fl_def Let_def)
  show ?thesis unfolding c b by (rule a)
qed

lemma fl_mono:
  assumes "0 \<le> x" "x \<le> y"
  shows "fl x \<le> fl y"
proof (cases "x = 0")
  case True
  show ?thesis
  proof (cases "y = 0")
    case True
    then show ?thesis using \<open>x = 0\<close> by simp
  next
    case False
    then have "0 < y" using assms True by simp
    from fl_lower[OF this] have "0 < fl y" using pow2_pos[of "binade y"] by linarith
    then show ?thesis using True by (simp add: fl_def)
  qed
next
  case False
  then have x: "0 < x" and y: "0 < y" using assms by simp_all
  note bx = binade_bounds[OF x] and bdy = binade_bounds[OF y]
  have "(2::rat) powi (binade x) < 2 powi (binade y + 1)" using bx bdy assms(2) by linarith
  then have le: "binade x \<le> binade y" using pow2_less_exp by fastforce
  show ?thesis
  proof (cases "binade x = binade y")
    case True
    let ?u = "(2::rat) powi (binade y - 52)"
    have "x / ?u \<le> y / ?u" using assms(2) by (simp add: divide_right_mono)
    then have "rne (x / ?u) \<le> rne (y / ?u)" by (rule rne_mono)
    then have "(of_int (rne (x / ?u)) :: rat) * ?u \<le> of_int (rne (y / ?u)) * ?u"
      by (intro mult_right_mono) simp_all
    then show ?thesis using x y True by (simp add: fl_def Let_def)
  next
    case False
    then have "binade x + 1 \<le> binade y" using le by simp
    then have "(2::rat) powi (binade x + 1) \<le> 2 powi (binade y)" by (rule pow2_mono)
    then show ?thesis using fl_upper[OF x] fl_lower[OF y] by linarith
  qed
qed


lemma fl_int:
  assumes "\<bar>k\<bar> < 2 ^ 53"
  shows "fl (of_int k) = of_int k"
proof (cases "k = 0")
  case True
  then show ?thesis by (simp add: fl_def)
next
  case False
  let ?x = "of_int k :: rat"
  define e where "e = binade \<bar>?x\<bar>"
  have pos: "0 < \<bar>?x\<bar>" using False by simp
  note b = binade_bounds[OF pos, folded e_def]
  have "\<bar>?x\<bar> < of_int (2 ^ 53)" using assms by (simp only: of_int_abs[symmetric] of_int_less_iff)
  then have "(2::rat) powi e < 2 powi 53" using b by simp
  then have e: "e < 53" by (rule pow2_less_exp)
  define m where "m = nat (52 - e)"
  have em: "e - 52 = - int m" using e by (simp add: m_def)
  have u: "(2::rat) powi (e - 52) = inverse (2 ^ m)"
    unfolding em by (simp add: power_int_minus)
  have "?x / 2 powi (e - 52) = of_int (k * 2 ^ m)" unfolding u by (simp add: divide_inverse)
  then have "rne (?x / 2 powi (e - 52)) = k * 2 ^ m" by (simp only: rne_of_int)
  then have "fl ?x = of_int (k * 2 ^ m) * inverse (2 ^ m)"
    using False by (simp add: fl_def Let_def e_def[symmetric] u)
  then show ?thesis by simp
qed

lemma rne_eqI:
  assumes "of_int k - 1 / 2 < q" "q < of_int k + 1 / 2"
  shows "rne q = k"
proof (cases "of_int k \<le> q")
  case True
  then have "\<lfloor>q\<rfloor> = k" using assms(2) by (intro floor_unique) simp_all
  then show ?thesis using assms(2) by (simp add: rne_def Let_def)
next
  case False
  then have "\<lfloor>q\<rfloor> = k - 1" using assms(1) by (intro floor_unique) simp_all
  then show ?thesis using assms(1) by (simp add: rne_def Let_def)
qed

lemma rne_minus: "rne (- q) = - rne q"
proof (cases "q = of_int \<lfloor>q\<rfloor>")
  case True
  then have "rne q = \<lfloor>q\<rfloor>" by (metis rne_of_int)
  moreover have "rne (- q) = - \<lfloor>q\<rfloor>" by (metis True of_int_minus rne_of_int)
  ultimately show ?thesis by simp
next
  case False
  then have lt: "of_int \<lfloor>q\<rfloor> < q" using of_int_floor_le[of q] by (auto simp: less_le)
  have "q < of_int \<lfloor>q\<rfloor> + 1" by linarith
  then have f: "\<lfloor>- q\<rfloor> = - \<lfloor>q\<rfloor> - 1" using lt by (intro floor_unique) simp_all
  show ?thesis unfolding rne_def Let_def f using lt by (auto simp: algebra_simps)
qed

lemma fl_minus: "fl (- x) = - fl x"
  by (simp add: fl_def Let_def rne_minus)

lemma fl_095: "fl (95 / 100) = 8556839292003942 / 2 ^ 53"
proof -
  have "fl (95 / 100) = of_int (rne ((95 / 100) / 2 powi (-1 - 52))) * 2 powi (-1 - 52)"
    by (rule fl_eq) (simp_all add: power_int_minus)
  also have "rne ((95 / 100) / 2 powi (-1 - 52)) = 8556839292003942"
    by (rule rne_eqI) (simp_all add: power_int_minus)
  finally show ?thesis by (simp add: power_int_minus)
qed

lemma fl_095_next: "fl (8556839292003943 / 2 ^ 53) = 8556839292003943 / 2 ^ 53"
proof -
  have "fl (8556839292003943 / 2 ^ 53) =
      of_int (rne ((8556839292003943 / 2 ^ 53) / 2 powi (-1 - 52))) * 2 powi (-1 - 52)"
    by (rule fl_eq) (simp_all add: power_int_minus)
  also have "rne ((8556839292003943 / 2 ^ 53) / 2 powi (-1 - 52)) = 8556839292003943"
    by (rule rne_eqI) (simp_all add: power_int_minus)
  finally show ?thesis by (simp add: power_int_minus)
qed

lemma fl_01: "fl (1 / 10) = 3602879701896397 / 2 ^ 55"
proof -
  have "fl (1 / 10) = of_int (rne ((1 / 10) / 2 powi (-4 - 52))) * 2 powi (-4 - 52)"
    by (rule fl_eq) (simp_all add: power_int_minus)
  also have "rne ((1 / 10) / 2 powi (-4 - 52)) = 7205759403792794"
    by (rule rne_eqI) (simp_all add: power_int_minus)
  finally show ?thesis by (simp add: power_int_minus)
qed

lemma fl_01_again: "fl (3602879701896397 / 2 ^ 55) = 3602879701896397 / 2 ^ 55"
proof -
  have "fl (3602879701896397 / 2 ^ 55) =
      of_int (rne ((3602879701896397 / 2 ^ 55) / 2 powi (-4 - 52))) * 2 powi (-4 - 52)"
    by (rule fl_eq) (simp_all add: power_int_minus)
  also have "rne ((3602879701896397 / 2 ^ 55) / 2 powi (-4 - 52)) = 3602879701896397 * 2"
    by (rule rne_eqI) (simp_all add: power_int_minus)
  finally show ?thesis by (simp add: power_int_minus)
qed

lemma threshold:
  assumes "0 \<le> c" "0 < n" "20 * n \<le> 2 ^ 53"
  shows "fl (95 / 100) < fl (of_int c / of_int n) \<longleftrightarrow> 19 * n < 20 * c"
proof
  assume "19 * n < 20 * c"
  then have "19 * n + 1 \<le> 20 * c" by simp
  then have "(of_int (19 * n + 1) :: rat) \<le> of_int (20 * c)" by (simp only: of_int_le_iff)
  then have i: "19 * of_int n + 1 \<le> 20 * (of_int c :: rat)" by simp
  have nr: "0 < (of_int n :: rat)" using assms(2) by simp
  have "(of_int (20 * n) :: rat) \<le> of_int (2 ^ 53)" using assms(3) by (simp only: of_int_le_iff)
  then have n53: "20 * (of_int n :: rat) \<le> 2 ^ 53" by simp
  have "8556839292003943 * (of_int n :: rat) \<le> 2 ^ 53 * of_int c"
  proof -
    have "20 * (8556839292003943 * (of_int n :: rat)) \<le>
          20 * (8556839292003942 * of_int n) + 2 ^ 53" using n53 by simp
    also have "\<dots> \<le> 2 ^ 53 * (19 * of_int n) + 2 ^ 53" using nr by simp
    also have "\<dots> \<le> 2 ^ 53 * (20 * of_int c)" using i by simp
    finally show ?thesis by simp
  qed
  then have "8556839292003943 / 2 ^ 53 \<le> (of_int c :: rat) / of_int n"
    using nr by (simp add: field_simps)
  then have "fl (8556839292003943 / 2 ^ 53) \<le> fl (of_int c / of_int n)"
    by (intro fl_mono) simp_all
  then show "fl (95 / 100) < fl (of_int c / of_int n)"
    unfolding fl_095 fl_095_next by simp
next
  assume a: "fl (95 / 100) < fl (of_int c / of_int n)"
  show "19 * n < 20 * c"
  proof (rule ccontr)
    assume "\<not> 19 * n < 20 * c"
    then have "20 * c \<le> 19 * n" by simp
    then have "(of_int (20 * c) :: rat) \<le> of_int (19 * n)" by (simp only: of_int_le_iff)
    then have "(of_int c :: rat) / of_int n \<le> 95 / 100"
      using assms(2) by (simp add: field_simps)
    moreover have "0 \<le> (of_int c :: rat) / of_int n" using assms by simp
    ultimately have "fl (of_int c / of_int n) \<le> fl (95 / 100)" by (rule fl_mono[rotated])
    with a show False by simp
  qed
qed

section \<open>Reward and termination\<close>

lemma count_known_nonneg: "0 \<le> count_known b"
  by (simp add: count_known_def)

lemma coverageE:
  assumes "coverage b = Inr c"
  obtains "0 < size_of b" "c = fl (of_int (count_known b) / of_int (size_of b))"
proof -
  have "size_of b \<noteq> 0" using assms by (auto simp: coverage_def truediv_def split: if_splits)
  moreover have "0 \<le> size_of b" by (simp add: size_of_def)
  ultimately have "0 < size_of b" by simp
  moreover have "c = fl (of_int (count_known b) / of_int (size_of b))"
    using assms by (auto simp: coverage_def truediv_def split: if_splits)
  ultimately show ?thesis by (rule that)
qed

text \<open>
  C5. The flag \<^verbatim>\<open>done\<close> of a step depends on the belief map after the scan alone:
  it is true exactly when the known cells are more than 95 in 100 of all cells,
  and so false at exactly 95 in 100. The comparison is made on floats; it agrees
  with the exact one for every map of at most \<open>2 ^ 53 / 20\<close> cells.
\<close>

theorem termination_threshold:
  assumes "step s a = Some (Inr (s', obs, rw, d))" "20 * size_of (belief_map s') \<le> 2 ^ 53"
  shows "(d \<longleftrightarrow> 19 * size_of (belief_map s') < 20 * count_known (belief_map s')) \<and>
         (20 * count_known (belief_map s') = 19 * size_of (belief_map s') \<longrightarrow> \<not> d)"
proof -
  from assms(1) obtain c where c: "coverage (belief_map s') = Inr c"
    and d: "d = (fl (95 / 100) < c)"
    by (rule stepE)
  from c have n: "0 < size_of (belief_map s')" by (rule coverageE)
  from c have cv: "c = fl (of_int (count_known (belief_map s')) / of_int (size_of (belief_map s')))"
    by (rule coverageE)
  have "d \<longleftrightarrow> 19 * size_of (belief_map s') < 20 * count_known (belief_map s')"
    unfolding d cv using count_known_nonneg n assms(2) by (rule threshold)
  then show ?thesis by auto
qed

lemma room_end_step:
  "step room_end 99 = Some (Inr (room_end, get_observation room_end, reward_of False 0, True))"
  by code_simp

theorem termination_threshold_witness:
  "step room_end 99 = Some (Inr (room_end, get_observation room_end, reward_of False 0, True)) \<and>
   20 * size_of (belief_map room_end) \<le> 2 ^ 53 \<and>
   19 * size_of (belief_map room_end) < 20 * count_known (belief_map room_end)"
proof -
  have b: "20 * size_of (belief_map room_end) \<le> 2 ^ 53"
    by (simp add: size_of_def room_end_def)
  from termination_threshold[OF room_end_step b]
  have "19 * size_of (belief_map room_end) < 20 * count_known (belief_map room_end)" by blast
  with room_end_step b show ?thesis by blast
qed

lemma fl_int_small: "- (2 ^ 53) < k \<Longrightarrow> k < 2 ^ 53 \<Longrightarrow> fl (of_int k) = of_int k"
  by (rule fl_int) simp

lemma reward_of_exact:
  assumes "0 \<le> n" "n < 2 ^ 52"
  shows "reward_of coll n = fl (of_int n + (if coll then - 5 else 0) - fl (1 / 10))"
proof -
  have n: "fl (of_int n) = of_int n" using assms by (intro fl_int_small) simp_all
  have m5: "fl (- 5) = - 5" using fl_int_small[of "- 5"] by simp
  have n5: "fl (of_int n - 5) = of_int n - 5"
    using fl_int_small[of "n - 5"] assms by simp
  show ?thesis
    by (simp add: reward_of_def fadd_def fsub_def fmul_def float_of_int_def n m5 n5)
qed

lemma reward_of_idle: "reward_of False 0 = - fl (1 / 10)"
proof -
  have "reward_of False 0 = fl (- fl (1 / 10))"
    using reward_of_exact[of 0 False] by simp
  also have "\<dots> = - fl (fl (1 / 10))" by (rule fl_minus)
  also have "fl (fl (1 / 10)) = fl (1 / 10)" unfolding fl_01 by (rule fl_01_again)
  finally show ?thesis .
qed

text \<open>
  C4. The reward of a step is computed from \<^verbatim>\<open>is_collision\<close> of the move and
  the count \<open>n\<close> returned by the scan that follows it, as
  \<^verbatim>\<open>(-5.0 if is_collision else 0) + n * 1.0 - 0.1\<close> in float arithmetic. For a
  count below \<open>2 ^ 52\<close> only the last subtraction rounds; a step without collision
  that discovers nothing is rewarded with the float \<^verbatim>\<open>-0.1\<close>.
\<close>

theorem reward_decomposition:
  assumes "step s a = Some (Inr (s', obs, rw, d))"
  shows "\<exists>s2 coll n. move s a = Inr (s2, coll) \<and>
           update_belief_map_with_lidar s2 = Some (s', n) \<and>
           rw = fsub (fadd (if coll then - 5 else 0) (fmul (float_of_int n) 1)) (fl (1 / 10)) \<and>
           (0 \<le> n \<and> n < 2 ^ 52 \<longrightarrow>
              rw = fl (of_int n + (if coll then - 5 else 0) - fl (1 / 10))) \<and>
           (\<not> coll \<and> n = 0 \<longrightarrow> rw = - fl (1 / 10)) \<and>
           fl (1 / 10) = 3602879701896397 / 2 ^ 55"
proof -
  from assms obtain s2 coll n where m: "move s a = Inr (s2, coll)"
    and u: "update_belief_map_with_lidar s2 = Some (s', n)"
    and rw: "rw = reward_of coll n"
    by (rule stepE)
  have m5: "fsub 0 5 = - 5" using fl_int_small[of "- 5"] by (simp add: fsub_def)
  have "rw = fsub (fadd (if coll then - 5 else 0) (fmul (float_of_int n) 1)) (fl (1 / 10))"
    unfolding rw by (simp add: reward_of_def m5)
  moreover have "0 \<le> n \<and> n < 2 ^ 52 \<longrightarrow>
              rw = fl (of_int n + (if coll then - 5 else 0) - fl (1 / 10))"
    unfolding rw using reward_of_exact by blast
  moreover have "\<not> coll \<and> n = 0 \<longrightarrow> rw = - fl (1 / 10)"
    unfolding rw using reward_of_idle by auto
  ultimately show ?thesis using m u fl_01 by blast
qed

lemma room_idle_step:
  "step room 99 = Some (Inr (room, get_observation room, reward_of False 0, False))"
  by code_simp

theorem reward_decomposition_witness:
  "step room 99 = Some (Inr (room, get_observation room, reward_of False 0, False)) \<and>
   move room 99 = Inr (room, False) \<and>
   update_belief_map_with_lidar room = Some (room, 0) \<and>
   (0::int) \<le> 0 \<and> (0::int) < 2 ^ 52 \<and>
   reward_of False 0 = - fl (1 / 10) \<and> fl (1 / 10) = 3602879701896397 / 2 ^ 55"
proof -
  have mv: "move room 99 = Inr (room, False)" by code_simp
  have sc: "update_belief_map_with_lidar room = Some (room, 0)" by code_simp
  from reward_decomposition[OF room_idle_step] mv sc
  have "reward_of False 0 = - fl (1 / 10) \<and> fl (1 / 10) = 3602879701896397 / 2 ^ 55"
    by auto
  with room_idle_step mv sc show ?thesis by simp
qed

end
